theory Spec2Isabelle
  imports Complex_Main "HOL-Library.AList" "HOL-Library.Multiset"
begin

section \<open>Errors\<close>

text \<open>
  The TypeScript code signals every failure by a rejected promise. The model returns the
  failure as a value. \<open>PoolShuttingDown\<close> is the one error the repository throws itself
  (\<open>acquirePage\<close>); the others stand for rejections of the puppeteer and \<open>fs\<close>
  calls the code awaits.
\<close>

datatype error =
    PoolShuttingDown
  | LaunchFailure
  | PageCreationFailure
  | LoadTimeout
  | RemoteCallFailure
  | ArtifactWriteFailure
  | TypeError

section \<open>Worker pool (browser-pool.ts)\<close>

text \<open>
  Browsers and pages are objects compared by identity in the source (\<open>indexOf\<close>,
  \<open>Map\<close> keys, \<open>Set\<close> members). The model gives every object a handle, a natural
  number taken from a counter of the pool, so that two launches never give the same
  browser. \<open>browser\<close> of a page is \<open>page.browser()\<close>.
\<close>

type_synonym Browser = nat

datatype Page = Page (browser: Browser) (pageHandle: nat)

text \<open>
  \<open>BrowserPoolConfig\<close>: the fields \<open>headless\<close>, \<open>width\<close>, \<open>height\<close> and
  \<open>useSwiftShader\<close> only select launch arguments and are left out.
\<close>

record BrowserPoolConfig =
  poolSize :: nat
  htmlPath :: string
  maxSimsPerBrowser :: "int option"

text \<open>
  What the awaited puppeteer calls of one pool operation answer: whether
  \<open>puppeteer.launch\<close>, \<open>browser.newPage\<close> (with \<open>setViewport\<close>) and
  \<open>page.goto("about:blank")\<close> resolve. Failures of \<open>page.close\<close> and
  \<open>browser.close\<close> are caught and ignored by the source and change nothing.
\<close>

record PoolEnv =
  launchOk :: bool
  createPageOk :: bool
  gotoOk :: bool

text \<open>
  The fields of class \<open>BrowserPool\<close>, then two fields of the model: the handle counter
  and the log of browsers on which \<open>close\<close> was called.
\<close>

record BrowserPool =
  config :: BrowserPoolConfig
  browsers :: "Browser list"
  availablePages :: "Page list"
  busyPages :: "Page set"
  simCountPerBrowser :: "Browser \<rightharpoonup> int"
  isShuttingDown :: bool
  nextHandle :: nat
  closedBrowsers :: "Browser list"

definition newBrowserPool :: "BrowserPoolConfig \<Rightarrow> BrowserPool" where
  "newBrowserPool cfg =
     \<lparr> config = cfg, browsers = [], availablePages = [], busyPages = {},
       simCountPerBrowser = Map.empty, isShuttingDown = False, nextHandle = 0,
       closedBrowsers = [] \<rparr>"

definition launchBrowser :: "PoolEnv \<Rightarrow> BrowserPool \<Rightarrow> error + (Browser \<times> BrowserPool)" where
  "launchBrowser env pool =
     (if launchOk env
      then Inr (nextHandle pool, pool\<lparr>nextHandle := Suc (nextHandle pool)\<rparr>)
      else Inl LaunchFailure)"

definition createPage :: "PoolEnv \<Rightarrow> Browser \<Rightarrow> BrowserPool \<Rightarrow> error + (Page \<times> BrowserPool)" where
  "createPage env b pool =
     (if createPageOk env
      then Inr (Page b (nextHandle pool), pool\<lparr>nextHandle := Suc (nextHandle pool)\<rparr>)
      else Inl PageCreationFailure)"

text \<open>
  \<open>initialize\<close>: the loop \<open>for (i = 0; i < poolSize; i++)\<close>. A rejected launch or page
  creation leaves the loop with the pool as filled so far.
\<close>

function initializeFrom :: "(nat \<Rightarrow> PoolEnv) \<Rightarrow> nat \<Rightarrow> BrowserPool \<Rightarrow> error option \<times> BrowserPool" where
  "initializeFrom envs i pool =
     (if i < poolSize (config pool) then
        (case launchBrowser (envs i) pool of
           Inl e \<Rightarrow> (Some e, pool)
         | Inr (b, pool1) \<Rightarrow>
             (let pool2 = pool1\<lparr>browsers := browsers pool1 @ [b],
                                 simCountPerBrowser := (simCountPerBrowser pool1)(b \<mapsto> 0)\<rparr>
              in case createPage (envs i) b pool2 of
                   Inl e \<Rightarrow> (Some e, pool2)
                 | Inr (page, pool3) \<Rightarrow>
                     initializeFrom envs (Suc i)
                       (pool3\<lparr>availablePages := availablePages pool3 @ [page]\<rparr>)))
      else (None, pool))"
  by pat_completeness auto
termination
  by (relation "measure (\<lambda>(envs, i, pool). poolSize (config pool) - i)")
     (auto simp: launchBrowser_def createPage_def split: if_splits)

declare initializeFrom.simps [simp del]

definition initialize :: "(nat \<Rightarrow> PoolEnv) \<Rightarrow> BrowserPool \<Rightarrow> error option \<times> BrowserPool" where
  "initialize envs pool = initializeFrom envs 0 pool"

text \<open>
  \<open>acquirePage\<close> polls: \<open>while (availablePages.length === 0 && !isShuttingDown)\<close> it
  sleeps 100 ms and tests again. Other tasks run during the sleep, so the model gives one
  test of the loop condition: \<open>Waiting\<close> is the loop going round once more with the pool
  untouched, \<open>Rejected\<close> the throw, \<open>Got\<close> the page popped from the end of
  \<open>availablePages\<close>.
\<close>

datatype acquired = Waiting | Rejected error | Got Page

definition acquirePage :: "BrowserPool \<Rightarrow> acquired \<times> BrowserPool" where
  "acquirePage pool =
     (if availablePages pool = [] \<and> \<not> isShuttingDown pool then (Waiting, pool)
      else if isShuttingDown pool then (Rejected PoolShuttingDown, pool)
      else (let page = last (availablePages pool)
            in (Got page, pool\<lparr>availablePages := butlast (availablePages pool),
                                busyPages := insert page (busyPages pool)\<rparr>)))"

text \<open>\<open>config.maxSimsPerBrowser || 50\<close>: undefined and 0 are both falsy.\<close>

definition maxSims :: "BrowserPoolConfig \<Rightarrow> int" where
  "maxSims cfg = (case maxSimsPerBrowser cfg of
                    None \<Rightarrow> 50
                  | Some m \<Rightarrow> if m = 0 then 50 else m)"

text \<open>\<open>simCountPerBrowser.get(browser) || 0\<close>.\<close>

definition simCount :: "BrowserPool \<Rightarrow> Browser \<Rightarrow> int" where
  "simCount pool b = (case simCountPerBrowser pool b of None \<Rightarrow> 0 | Some c \<Rightarrow> c)"

definition restartBrowser :: "Browser \<Rightarrow> Page \<Rightarrow> PoolEnv \<Rightarrow> BrowserPool \<Rightarrow> error option \<times> BrowserPool" where
  "restartBrowser oldBrowser oldPage env pool =
     (let pool1 = pool\<lparr>browsers := remove1 oldBrowser (browsers pool),
                        simCountPerBrowser := (simCountPerBrowser pool)(oldBrowser := None),
                        closedBrowsers := closedBrowsers pool @ [oldBrowser]\<rparr>
      in case launchBrowser env pool1 of
           Inl e \<Rightarrow> (Some e, pool1)
         | Inr (newBrowser, pool2) \<Rightarrow>
             (let pool3 = pool2\<lparr>browsers := browsers pool2 @ [newBrowser],
                                 simCountPerBrowser := (simCountPerBrowser pool2)(newBrowser \<mapsto> 0)\<rparr>
              in case createPage env newBrowser pool3 of
                   Inl e \<Rightarrow> (Some e, pool3)
                 | Inr (newPage, pool4) \<Rightarrow>
                     (None, pool4\<lparr>availablePages := availablePages pool4 @ [newPage]\<rparr>)))"

definition releasePage :: "Page \<Rightarrow> PoolEnv \<Rightarrow> BrowserPool \<Rightarrow> error option \<times> BrowserPool" where
  "releasePage page env pool =
     (let pool1 = pool\<lparr>busyPages := busyPages pool - {page}\<rparr>;
          b = browser page;
          count = simCount pool1 b + 1;
          pool2 = pool1\<lparr>simCountPerBrowser := (simCountPerBrowser pool1)(b \<mapsto> count)\<rparr>
      in if count \<ge> maxSims (config pool2) then restartBrowser b page env pool2
         else if gotoOk env
              then (None, pool2\<lparr>availablePages := availablePages pool2 @ [page]\<rparr>)
              else (case createPage env b pool2 of
                      Inl e \<Rightarrow> (Some e, pool2)
                    | Inr (newPage, pool3) \<Rightarrow>
                        (None, pool3\<lparr>availablePages := availablePages pool3 @ [newPage]\<rparr>)))"

text \<open>
  \<open>shutdown\<close> sets the flag, waits up to 30 s for \<open>busyPages\<close> to empty while other
  tasks run, and then closes every browser and clears the three collections. The model
  gives the two halves.
\<close>

definition shutdownBegin :: "BrowserPool \<Rightarrow> BrowserPool" where
  "shutdownBegin pool = pool\<lparr>isShuttingDown := True\<rparr>"

definition shutdownFinish :: "BrowserPool \<Rightarrow> BrowserPool" where
  "shutdownFinish pool =
     pool\<lparr>closedBrowsers := closedBrowsers pool @ browsers pool,
          browsers := [], availablePages := [], busyPages := {}\<rparr>"

text \<open>
  The states a pool goes through. Every operation is taken as one step (the source runs
  on one thread and other tasks only run at an \<open>await\<close>). The second component is the
  set of leases: the pages handed out by \<open>acquirePage\<close> and not yet given back. A caller
  releases a page it holds, once, as the Scheduler does.
\<close>

inductive reachable :: "BrowserPoolConfig \<Rightarrow> BrowserPool \<times> Page set \<Rightarrow> bool"
  for cfg :: BrowserPoolConfig
where
  reach_init:
    "initialize envs (newBrowserPool cfg) = (None, pool) \<Longrightarrow> reachable cfg (pool, {})"
| reach_acquire:
    "reachable cfg (pool, leases) \<Longrightarrow> acquirePage pool = (Got page, pool') \<Longrightarrow>
     reachable cfg (pool', insert page leases)"
| reach_release:
    "reachable cfg (pool, leases) \<Longrightarrow> page \<in> leases \<Longrightarrow>
     releasePage page env pool = (r, pool') \<Longrightarrow>
     reachable cfg (pool', leases - {page})"
| reach_shutdownBegin:
    "reachable cfg (pool, leases) \<Longrightarrow> reachable cfg (shutdownBegin pool, leases)"
| reach_shutdownFinish:
    "reachable cfg (pool, leases) \<Longrightarrow> isShuttingDown pool \<Longrightarrow>
     reachable cfg (shutdownFinish pool, leases)"

text \<open>
  The operations a caller can make on the pool, for statements about sequences of them.
  \<open>applyOp\<close> answers what an \<open>acquirePage\<close> test gave, if the operation was one.
\<close>

datatype poolOp =
    DoAcquire
  | DoRelease Page PoolEnv
  | DoShutdownBegin
  | DoShutdownFinish

fun applyOp :: "poolOp \<Rightarrow> BrowserPool \<Rightarrow> acquired option \<times> BrowserPool" where
  "applyOp DoAcquire pool = (let (a, pool') = acquirePage pool in (Some a, pool'))"
| "applyOp (DoRelease page env) pool = (None, snd (releasePage page env pool))"
| "applyOp DoShutdownBegin pool = (None, shutdownBegin pool)"
| "applyOp DoShutdownFinish pool = (None, shutdownFinish pool)"

fun applyOps :: "poolOp list \<Rightarrow> BrowserPool \<Rightarrow> acquired option list \<times> BrowserPool" where
  "applyOps [] pool = ([], pool)"
| "applyOps (op # ops) pool =
     (let (a, pool1) = applyOp op pool; (as, pool2) = applyOps ops pool1 in (a # as, pool2))"

fun isRelease :: "poolOp \<Rightarrow> bool" where
  "isRelease (DoRelease page env) = True"
| "isRelease _ = False"

fun isGot :: "acquired option \<Rightarrow> bool" where
  "isGot (Some (Got page)) = True"
| "isGot _ = False"

text \<open>
  Scenario C of the specification: jobs that run one after the other on a pool, each
  taking a page and giving it back.
\<close>

definition leaseOnce :: "PoolEnv \<Rightarrow> BrowserPool \<Rightarrow> BrowserPool" where
  "leaseOnce env pool =
     (case acquirePage pool of
        (Got page, pool1) \<Rightarrow> snd (releasePage page env pool1)
      | (_, pool1) \<Rightarrow> pool1)"

definition allOk :: PoolEnv where
  "allOk = \<lparr> launchOk = True, createPageOk = True, gotoOk = True \<rparr>"

definition scenarioC :: BrowserPoolConfig where
  "scenarioC = \<lparr> poolSize = 1, htmlPath = ''index.html'', maxSimsPerBrowser = Some 2 \<rparr>"

definition defaultThreshold :: BrowserPoolConfig where
  "defaultThreshold = \<lparr> poolSize = 1, htmlPath = ''index.html'', maxSimsPerBrowser = None \<rparr>"

text \<open>A pool of one browser while its page is leased for the \<open>(k+1)\<close>-th time, and the
  same pool between leases.\<close>

definition leasedPool :: "BrowserPoolConfig \<Rightarrow> nat \<Rightarrow> BrowserPool" where
  "leasedPool cfg k =
     \<lparr> config = cfg, browsers = [0], availablePages = [], busyPages = {Page 0 1},
       simCountPerBrowser = [0 \<mapsto> int k], isShuttingDown = False, nextHandle = 2,
       closedBrowsers = [] \<rparr>"

definition idlePool :: "BrowserPoolConfig \<Rightarrow> nat \<Rightarrow> BrowserPool" where
  "idlePool cfg k =
     \<lparr> config = cfg, browsers = [0], availablePages = [Page 0 1], busyPages = {},
       simCountPerBrowser = [0 \<mapsto> int k], isShuttingDown = False, nextHandle = 2,
       closedBrowsers = [] \<rparr>"

text \<open>Invariants of the reachable pools: counters stay below the threshold; handles
  in use are older than the counter.\<close>

definition countsBelow :: "int \<Rightarrow> BrowserPool \<Rightarrow> bool" where
  "countsBelow T pool \<longleftrightarrow> (\<forall>b c. simCountPerBrowser pool b = Some c \<longrightarrow> 0 \<le> c \<and> c < T)"

definition handlesBelow :: "BrowserPool \<Rightarrow> Page set \<Rightarrow> bool" where
  "handlesBelow pool leases \<longleftrightarrow>
     distinct (browsers pool) \<and>
     (\<forall>b \<in> set (browsers pool). b < nextHandle pool) \<and>
     (\<forall>page \<in> leases. browser page < nextHandle pool) \<and>
     (\<forall>page \<in> set (availablePages pool). browser page < nextHandle pool)"

text \<open>The first two statements of \<open>releasePage\<close>.\<close>

definition released :: "Page \<Rightarrow> BrowserPool \<Rightarrow> BrowserPool" where
  "released page pool =
     pool\<lparr>busyPages := busyPages pool - {page},
          simCountPerBrowser := (simCountPerBrowser pool)(browser page \<mapsto> simCount pool (browser page) + 1)\<rparr>"

text \<open>What a release did to the browser of the page: torn it down, and put a fresh one
  in its place.\<close>

definition tornDown :: "Browser \<Rightarrow> BrowserPool \<Rightarrow> BrowserPool \<Rightarrow> bool" where
  "tornDown b pool pool' \<longleftrightarrow>
     closedBrowsers pool' = closedBrowsers pool @ [b] \<and>
     b \<notin> set (browsers pool') \<and>
     simCountPerBrowser pool' b = None"

definition replacedBy :: "Browser \<Rightarrow> Browser \<Rightarrow> BrowserPool \<Rightarrow> BrowserPool \<Rightarrow> bool" where
  "replacedBy b new pool pool' \<longleftrightarrow>
     new \<noteq> b \<and> new \<notin> set (browsers pool) \<and>
     browsers pool' = remove1 b (browsers pool) @ [new] \<and>
     simCountPerBrowser pool' new = Some 0 \<and>
     (\<exists>h. availablePages pool' = availablePages pool @ [Page new h])"

definition keptAlive :: "Browser \<Rightarrow> BrowserPool \<Rightarrow> BrowserPool \<Rightarrow> bool" where
  "keptAlive b pool pool' \<longleftrightarrow>
     closedBrowsers pool' = closedBrowsers pool \<and>
     browsers pool' = browsers pool \<and>
     simCountPerBrowser pool' b = Some (simCount pool b + 1)"

section \<open>Data model (types.ts)\<close>

datatype Species = Species_u | Species_v | Species_w | Species_q

datatype BrushShape = Circle | Square

datatype BrushAction = Replace | Add

record BrushParams =
  brush_x :: real
  brush_y :: real
  brush_species :: Species
  brush_value :: real
  brush_radius :: real
  brush_shape :: "BrushShape option"
  brush_action :: "BrushAction option"

datatype InterventionType = Brush

record Intervention =
  frame :: int
  simulationTime :: "real option"
  itype :: InterventionType
  params :: BrushParams

text \<open>
  Interventions are objects: \<open>run\<close> sorts a copy of the array, which shares the objects
  with \<open>config.interventions\<close>, and writes \<open>simulationTime\<close> into them. An array of
  interventions is therefore a list of references, and the objects live in a store.
\<close>

type_synonym ref = nat

type_synonym store = "ref \<Rightarrow> Intervention"

datatype OptionValue = Num real | Str string | Flag bool

text \<open>
  \<open>SimulationConfig\<close>. \<open>options\<close> keeps the insertion order of the keys, which is the
  order of \<open>Object.entries\<close>.
\<close>

record SimulationConfig =
  simId :: string
  preset :: string
  options :: "(string \<times> OptionValue) list option"
  totalFrames :: int
  timestepsPerFrame :: int
  interventions :: "ref list option"
  outputDir :: string
  randomSeed :: "int option"
  resolution :: "(int \<times> int) option"

text \<open>
  \<open>FrameAnnotation\<close> and \<open>SimulationMetadata\<close>, over the representation \<open>'i\<close> of an
  intervention: a reference in memory, the object's value in the document that
  \<open>JSON.stringify\<close> produces. The sections \<open>equations\<close>, \<open>parameters\<close> and
  \<open>visualization\<close> are parsed out of the snapshot returned by \<open>getOptions\<close>; the model
  keeps the snapshot (\<open>solverOptions\<close>) in their place. The wall-clock \<open>timestamp\<close> is
  left out.
\<close>

record 'i FrameAnnotation =
  frameIndex :: int
  annotationTime :: real
  annotationIntervention :: "'i option"

record 'i SimulationMetadata =
  metaId :: string
  metaPreset :: string
  generatorVersion :: string
  solverOptions :: "(string \<times> OptionValue) list"
  metaTotalFrames :: int
  metaTimestepsPerFrame :: int
  totalTime :: real
  metaResolution :: "int \<times> int"
  metaRandomSeed :: "int option"
  metaInterventions :: "'i list"
  frameAnnotations :: "'i FrameAnnotation list"

definition stringifyAnnotation :: "store \<Rightarrow> ref FrameAnnotation \<Rightarrow> Intervention FrameAnnotation" where
  "stringifyAnnotation h a =
     \<lparr> frameIndex = frameIndex a, annotationTime = annotationTime a,
       annotationIntervention = map_option h (annotationIntervention a) \<rparr>"

definition stringify :: "store \<Rightarrow> ref SimulationMetadata \<Rightarrow> Intervention SimulationMetadata" where
  "stringify h m =
     \<lparr> metaId = metaId m, metaPreset = metaPreset m, generatorVersion = generatorVersion m,
       solverOptions = solverOptions m, metaTotalFrames = metaTotalFrames m,
       metaTimestepsPerFrame = metaTimestepsPerFrame m, totalTime = totalTime m,
       metaResolution = metaResolution m, metaRandomSeed = metaRandomSeed m,
       metaInterventions = map h (metaInterventions m),
       frameAnnotations = map (stringifyAnnotation h) (frameAnnotations m) \<rparr>"

section \<open>Session runner (simulation-runner.ts)\<close>

text \<open>
  Everything \<open>run\<close> does to the outside is an awaited call: on the page (the control
  surface \<open>window.VPDE\<close>) or on the file system. The model logs each call as an event.
  \<open>ApplyBrush\<close> carries the reference of the intervention object it was made for next to
  the five arguments the source passes.
\<close>

datatype FileContent =
    Png string
  | MetadataJson "Intervention SimulationMetadata"

datatype event =
    Mkdir string
  | Goto string string
  | WaitForReady
  | SetSeed int
  | SetOption string OptionValue
  | UpdateProblem
  | Reset
  | ApplyBrush ref real real Species real real
  | GetTime
  | StepN int
  | Render
  | CaptureFrame
  | GetOptions
  | WriteFile string FileContent

text \<open>
  The renderer is opaque. What it answers to a query is a function of the calls made on
  the page so far.
\<close>

record Renderer =
  getTime :: "event list \<Rightarrow> real"
  captureFrame :: "event list \<Rightarrow> string"
  getOptions :: "event list \<Rightarrow> (string \<times> OptionValue) list"

text \<open>\<open>path.join\<close>, \<open>path.dirname\<close> and \<open>path.relative\<close> of Node, taken as given.\<close>

record PathLib =
  join :: "string \<Rightarrow> string \<Rightarrow> string"
  dirname :: "string \<Rightarrow> string"
  relative :: "string \<Rightarrow> string \<Rightarrow> string"

text \<open>
  The world of one run: the log, the store of intervention objects, and how many more
  awaited calls resolve before one rejects (\<open>None\<close>: all resolve). \<open>run\<close> catches
  nothing, so the first rejection ends it.
\<close>

record World =
  trace :: "event list"
  heap :: store
  failAfter :: "nat option"

definition newWorld :: "store \<Rightarrow> nat option \<Rightarrow> World" where
  "newWorld h k = \<lparr> trace = [], heap = h, failAfter = k \<rparr>"

type_synonym 'a action = "World \<Rightarrow> (error + 'a) \<times> World"

definition andThen :: "'a action \<Rightarrow> ('a \<Rightarrow> 'b action) \<Rightarrow> 'b action" where
  "andThen m f w = (case m w of (Inl e, w') \<Rightarrow> (Inl e, w') | (Inr a, w') \<Rightarrow> f a w')"

definition resolve :: "'a \<Rightarrow> 'a action" where
  "resolve a w = (Inr a, w)"

text \<open>A synchronous \<open>throw\<close> inside \<open>run\<close>: the run rejects and nothing is logged.\<close>

definition throw :: "error \<Rightarrow> 'a action" where
  "throw e w = (Inl e, w)"

text \<open>
  One awaited call that answers \<open>answer\<close> (computed from the log before the call) and
  logs \<open>evs\<close>, or rejects with \<open>e\<close> and logs nothing.
\<close>

definition await :: "error \<Rightarrow> event list \<Rightarrow> (event list \<Rightarrow> 'a) \<Rightarrow> 'a action" where
  "await e evs answer w =
     (case failAfter w of
        Some 0 \<Rightarrow> (Inl e, w)
      | Some (Suc k) \<Rightarrow> (Inr (answer (trace w)), w\<lparr>trace := trace w @ evs, failAfter := Some k\<rparr>)
      | None \<Rightarrow> (Inr (answer (trace w)), w\<lparr>trace := trace w @ evs\<rparr>))"

text \<open>\<open>String(n)\<close> for an integer and \<open>padStart\<close>.\<close>

definition digitChar :: "nat \<Rightarrow> char" where
  "digitChar d = char_of (48 + d)"

fun natString :: "nat \<Rightarrow> string" where
  "natString n = (if n < 10 then [digitChar n] else natString (n div 10) @ [digitChar (n mod 10)])"

declare natString.simps [simp del]

definition String :: "int \<Rightarrow> string" where
  "String i = (if i < 0 then CHR ''-'' # natString (nat (- i)) else natString (nat i))"

definition padStart :: "nat \<Rightarrow> char \<Rightarrow> string \<Rightarrow> string" where
  "padStart n c s = replicate (n - length s) c @ s"

definition frameFilename :: "int \<Rightarrow> string" where
  "frameFilename n = padStart 6 (CHR ''0'') (String n) @ ''.png''"

text \<open>\<open>dataUrl.replace(/^data:image\/png;base64,/, "")\<close>; the result stands for the bytes
  it decodes to.\<close>

definition stripDataUrl :: "string \<Rightarrow> string" where
  "stripDataUrl dataUrl =
     (let prefix = ''data:image/png;base64,''
      in if take (length prefix) dataUrl = prefix then drop (length prefix) dataUrl else dataUrl)"

definition saveFrame :: "PathLib \<Rightarrow> string \<Rightarrow> string \<Rightarrow> int \<Rightarrow> unit action" where
  "saveFrame P dataUrl outDir n =
     (let buffer = Png (stripDataUrl dataUrl);
          filename = frameFilename n;
          filepath = join P outDir filename
      in await ArtifactWriteFailure [WriteFile filepath buffer] (\<lambda>_. ()))"

definition applyIntervention :: "ref \<Rightarrow> unit action" where
  "applyIntervention r w =
     (let intervention = heap w r
      in case itype intervention of
           Brush \<Rightarrow>
             (let p = params intervention
              in await RemoteCallFailure
                   [ApplyBrush r (brush_x p) (brush_y p) (brush_species p) (brush_value p) (brush_radius p)]
                   (\<lambda>_. ()) w))"

definition setSimulationTime :: "ref \<Rightarrow> real \<Rightarrow> unit action" where
  "setSimulationTime r t w = (Inr (), w\<lparr>heap := (heap w)(r := (heap w r)\<lparr>simulationTime := Some t\<rparr>)\<rparr>)"

text \<open>
  The inner \<open>while\<close> of \<open>run\<close>: apply the interventions from \<open>interventionIndex\<close> on
  whose frame is the current one; the answer is the index the loop stops at.
\<close>

function applyScheduled :: "Renderer \<Rightarrow> ref list \<Rightarrow> int \<Rightarrow> nat \<Rightarrow> nat action" where
  "applyScheduled R ivs fr interventionIndex w =
     (if interventionIndex < length ivs \<and> frame (heap w (ivs ! interventionIndex)) = fr then
        (case andThen (applyIntervention (ivs ! interventionIndex)) (\<lambda>_.
              andThen (await RemoteCallFailure [GetTime] (getTime R)) (\<lambda>simTime.
              setSimulationTime (ivs ! interventionIndex) simTime)) w of
           (Inl e, w') \<Rightarrow> (Inl e, w')
         | (Inr _, w') \<Rightarrow> applyScheduled R ivs fr (Suc interventionIndex) w')
      else (Inr interventionIndex, w))"
  by pat_completeness auto
termination
  by (relation "measure (\<lambda>(R, ivs, fr, i, w). length ivs - i)") auto

declare applyScheduled.simps [simp del]

text \<open>The body of the frame loop after the interventions: step, capture, save, annotate.\<close>

definition captureStep :: "Renderer \<Rightarrow> PathLib \<Rightarrow> SimulationConfig \<Rightarrow> string \<Rightarrow> ref list \<Rightarrow> int \<Rightarrow>
    ref FrameAnnotation action" where
  "captureStep R P cfg framesDir ivs fr =
     andThen (await RemoteCallFailure [StepN (timestepsPerFrame cfg), Render] (\<lambda>_. ())) (\<lambda>_.
     andThen (await RemoteCallFailure [CaptureFrame] (captureFrame R)) (\<lambda>dataUrl.
     andThen (saveFrame P dataUrl framesDir fr) (\<lambda>_.
     andThen (await RemoteCallFailure [GetTime] (getTime R)) (\<lambda>simTime.
     (\<lambda>w. resolve \<lparr> frameIndex = fr, annotationTime = simTime,
                 annotationIntervention = find (\<lambda>i. frame (heap w i) = fr) ivs \<rparr> w)))))"

function frameLoop :: "Renderer \<Rightarrow> PathLib \<Rightarrow> SimulationConfig \<Rightarrow> string \<Rightarrow> ref list \<Rightarrow> int \<Rightarrow> nat \<Rightarrow>
    ref FrameAnnotation list \<Rightarrow> ref FrameAnnotation list action" where
  "frameLoop R P cfg framesDir ivs fr interventionIndex annotations w =
     (if fr < totalFrames cfg then
        (case andThen (applyScheduled R ivs fr interventionIndex) (\<lambda>i.
              andThen (captureStep R P cfg framesDir ivs fr) (\<lambda>a. resolve (i, a))) w of
           (Inl e, w') \<Rightarrow> (Inl e, w')
         | (Inr (i, a), w') \<Rightarrow>
             frameLoop R P cfg framesDir ivs (fr + 1) i (annotations @ [a]) w')
      else (Inr annotations, w))"
  by pat_completeness auto
termination
  by (relation "measure (\<lambda>(R, P, cfg, framesDir, ivs, fr, i, anns, w). nat (totalFrames cfg - fr))") auto

declare frameLoop.simps [simp del]

text \<open>
  \<open>collectMetadata\<close>. After the two queries the source parses the snapshot:
  \<open>const kpStr = options.kineticParams as string; if (kpStr) { kpStr.matchAll(...) }\<close>.
  The cast checks nothing, so a truthy \<open>kineticParams\<close> that is not a string (a non-zero
  number, \<open>true\<close>) has no \<open>matchAll\<close> and the call throws a \<open>TypeError\<close>. The rest
  of the parsing (\<open>parseFloat\<close>, \<open>||\<close> defaults) cannot throw.
\<close>

definition truthy :: "OptionValue \<Rightarrow> bool" where
  "truthy v = (case v of Num x \<Rightarrow> x \<noteq> 0 | Str s \<Rightarrow> s \<noteq> [] | Flag b \<Rightarrow> b)"

definition kineticParamsThrow :: "(string \<times> OptionValue) list \<Rightarrow> bool" where
  "kineticParamsThrow opts =
     (case map_of opts ''kineticParams'' of
        None \<Rightarrow> False
      | Some (Str s) \<Rightarrow> False
      | Some v \<Rightarrow> truthy v)"

definition collectMetadata :: "Renderer \<Rightarrow> SimulationConfig \<Rightarrow> ref FrameAnnotation list \<Rightarrow>
    ref SimulationMetadata action" where
  "collectMetadata R cfg annotations =
     andThen (await RemoteCallFailure [GetOptions] (getOptions R)) (\<lambda>opts.
     andThen (await RemoteCallFailure [GetTime] (getTime R)) (\<lambda>finalTime.
     if kineticParamsThrow opts then throw TypeError else
     resolve \<lparr> metaId = simId cfg, metaPreset = preset cfg, generatorVersion = ''1.0.0'',
            solverOptions = opts, metaTotalFrames = totalFrames cfg,
            metaTimestepsPerFrame = timestepsPerFrame cfg, totalTime = finalTime,
            metaResolution = (case resolution cfg of None \<Rightarrow> (512, 512) | Some r \<Rightarrow> r),
            metaRandomSeed = randomSeed cfg,
            metaInterventions = (case interventions cfg of None \<Rightarrow> [] | Some ivs \<Rightarrow> ivs),
            frameAnnotations = annotations \<rparr>))"

text \<open>
  \<open>[...(config.interventions || [])].sort((a, b) => a.frame - b.frame)\<close>: a stable
  sort of the references by the frame of their objects.
\<close>

definition sortedInterventions :: "store \<Rightarrow> SimulationConfig \<Rightarrow> ref list" where
  "sortedInterventions h cfg =
     sort_key (\<lambda>r. frame (h r)) (case interventions cfg of None \<Rightarrow> [] | Some ivs \<Rightarrow> ivs)"

definition run :: "Renderer \<Rightarrow> PathLib \<Rightarrow> string \<Rightarrow> SimulationConfig \<Rightarrow> ref SimulationMetadata action" where
  "run R P html cfg =
     (let framesDir = join P (outputDir cfg) ''frames''
      in andThen (await ArtifactWriteFailure [Mkdir framesDir] (\<lambda>_. ())) (\<lambda>_.
         andThen (await LoadTimeout [Goto html (preset cfg)] (\<lambda>_. ())) (\<lambda>_.
         andThen (await LoadTimeout [WaitForReady] (\<lambda>_. ())) (\<lambda>_.
         andThen (case randomSeed cfg of
                    None \<Rightarrow> resolve ()
                  | Some seed \<Rightarrow> await RemoteCallFailure [SetSeed seed] (\<lambda>_. ())) (\<lambda>_.
         andThen (case options cfg of
                    None \<Rightarrow> resolve ()
                  | Some opts \<Rightarrow>
                      if length opts > 0
                      then await RemoteCallFailure
                             (map (\<lambda>(key, v). SetOption key v) opts @ [UpdateProblem]) (\<lambda>_. ())
                      else resolve ()) (\<lambda>_.
         andThen (await RemoteCallFailure [Reset] (\<lambda>_. ())) (\<lambda>_.
         andThen (\<lambda>w. frameLoop R P cfg framesDir (sortedInterventions (heap w) cfg) 0 0 [] w)
           (\<lambda>annotations.
         andThen (collectMetadata R cfg annotations) (\<lambda>metadata.
         andThen (\<lambda>w. await ArtifactWriteFailure
                         [WriteFile (join P (outputDir cfg) ''metadata.json'')
                                    (MetadataJson (stringify (heap w) metadata))] (\<lambda>_. ()) w) (\<lambda>_.
         resolve metadata))))))))))"

section \<open>Scheduler (orchestrator.ts)\<close>

datatype JobState = Pending | Running | Completed | Failed

text \<open>\<open>JobStatus\<close>, without the wall-clock fields \<open>startTime\<close> and \<open>endTime\<close>.\<close>

record JobStatus =
  jobId :: string
  jobConfig :: SimulationConfig
  status :: JobState
  jobError :: "error option"
  retryCount :: nat

text \<open>The documents the Scheduler writes (their \<open>timestamp\<close> and \<open>generated\<close> fields left out).\<close>

record ErrorDoc =
  errorId :: string
  errorDetail :: "error option"
  errorRetryCount :: nat

record IndexEntry =
  entryId :: string
  entryPreset :: string
  entryPath :: string

record IndexDoc =
  total_simulations :: nat
  completed :: nat
  failed :: nat
  elapsed_ms :: int
  simulations :: "IndexEntry list"

datatype Document = ErrorJson ErrorDoc | IndexJson IndexDoc

text \<open>
  The log of the Scheduler. \<open>Acquired\<close> is an \<open>acquirePage\<close> that resolved with the
  page; \<open>RunnerRun\<close> and \<open>Released\<close> are the calls of \<open>runner.run\<close> and
  \<open>releasePage\<close>, logged when made, whatever they answer; \<open>Slept\<close> is the backoff
  timer; \<open>FsMkdir\<close> and \<open>FsWriteFile\<close> are file-system calls that resolved.
\<close>

datatype call =
    Acquired Page
  | RunnerRun Page string
  | Released Page
  | Slept nat
  | FsMkdir string
  | FsWriteFile string Document

text \<open>
  What one attempt meets: the answer of \<open>acquirePage\<close>, the world \<open>runner.run\<close> starts
  in (with its schedule of rejections), the answer of \<open>releasePage\<close>. What a job meets:
  its attempts, and whether \<open>mkdir\<close> and \<open>writeFile\<close> for \<open>error.json\<close> resolve.
\<close>

record AttemptEnv =
  acquireResult :: "error + Page"
  runWorld :: World
  releaseResult :: "error option"

record JobEnv =
  attempts :: "nat \<Rightarrow> AttemptEnv"
  errorMkdirOk :: bool
  errorWriteOk :: bool

text \<open>
  The Scheduler. \<open>concurrency\<close> is the setting of its \<open>PQueue\<close>, whose constructor
  refuses a value below 1, so it is at least 1 in every Scheduler that exists.
\<close>

record Orchestrator =
  poolHtmlPath :: string
  concurrency :: nat
  maxRetries :: nat
  jobs :: "string \<rightharpoonup> JobStatus"
  startTime :: int
  completedCount :: nat
  failedCount :: nat
  calls :: "call list"

definition newOrchestrator :: "string \<Rightarrow> nat \<Rightarrow> nat \<Rightarrow> Orchestrator" where
  "newOrchestrator html limit retries =
     \<lparr> poolHtmlPath = html, concurrency = limit, maxRetries = retries, jobs = Map.empty,
       startTime = 0, completedCount = 0, failedCount = 0, calls = [] \<rparr>"

text \<open>A write to the fields of the job object \<open>this.jobs.get(id)\<close>.\<close>

definition updateJob :: "string \<Rightarrow> (JobStatus \<Rightarrow> JobStatus) \<Rightarrow> Orchestrator \<Rightarrow> Orchestrator" where
  "updateJob i f orch = orch\<lparr>jobs := (jobs orch)(i := map_option f (jobs orch i))\<rparr>"

definition logCalls :: "call list \<Rightarrow> Orchestrator \<Rightarrow> Orchestrator" where
  "logCalls cs orch = orch\<lparr>calls := calls orch @ cs\<rparr>"

text \<open>
  The body of the outer \<open>try\<close> of \<open>runWithRetry\<close>: acquire, then \<open>try\<close> the run and
  \<open>finally\<close> release. A rejection of \<open>releasePage\<close> replaces the outcome of the
  \<open>try\<close> block, as in JavaScript.
\<close>

definition attemptBody :: "Renderer \<Rightarrow> PathLib \<Rightarrow> AttemptEnv \<Rightarrow> SimulationConfig \<Rightarrow> Orchestrator \<Rightarrow>
    (error + ref SimulationMetadata) \<times> Orchestrator" where
  "attemptBody R P env cfg orch =
     (case acquireResult env of
        Inl e \<Rightarrow> (Inl e, orch)
      | Inr page \<Rightarrow>
          (let orch1 = logCalls [Acquired page, RunnerRun page (simId cfg)] orch
           in case fst (run R P (poolHtmlPath orch1) cfg (runWorld env)) of
                Inr metadata \<Rightarrow>
                  (let orch2 = updateJob (simId cfg) (\<lambda>job. job\<lparr>status := Completed\<rparr>) orch1;
                       orch3 = orch2\<lparr>completedCount := completedCount orch2 + 1\<rparr>;
                       orch4 = logCalls [Released page] orch3
                   in case releaseResult env of
                        None \<Rightarrow> (Inr metadata, orch4)
                      | Some e \<Rightarrow> (Inl e, orch4))
              | Inl e \<Rightarrow>
                  (let orch4 = logCalls [Released page] orch1
                   in case releaseResult env of
                        None \<Rightarrow> (Inl e, orch4)
                      | Some e' \<Rightarrow> (Inl e', orch4))))"

text \<open>The \<open>catch\<close> block on the last attempt: mark the job failed and save \<open>error.json\<close>;
  a rejected \<open>mkdir\<close> or \<open>writeFile\<close> is ignored.\<close>

definition saveErrorInfo :: "PathLib \<Rightarrow> JobEnv \<Rightarrow> SimulationConfig \<Rightarrow> Orchestrator \<Rightarrow> Orchestrator" where
  "saveErrorInfo P env cfg orch =
     (case jobs orch (simId cfg) of
        None \<Rightarrow> orch
      | Some job \<Rightarrow>
          if \<not> errorMkdirOk env then orch
          else if \<not> errorWriteOk env then logCalls [FsMkdir (outputDir cfg)] orch
          else logCalls [FsMkdir (outputDir cfg),
                         FsWriteFile (join P (outputDir cfg) ''error.json'')
                           (ErrorJson \<lparr> errorId = simId cfg, errorDetail = jobError job,
                                        errorRetryCount = retryCount job \<rparr>)] orch)"

text \<open>The loop \<open>for (attempt = 0; attempt <= this.maxRetries; attempt++)\<close>.\<close>

function retryLoop :: "Renderer \<Rightarrow> PathLib \<Rightarrow> JobEnv \<Rightarrow> SimulationConfig \<Rightarrow> nat \<Rightarrow> nat \<Rightarrow> Orchestrator \<Rightarrow>
    ref SimulationMetadata option \<times> Orchestrator" where
  "retryLoop R P env cfg retries attempt orch =
     (if attempt \<le> retries then
        (case attemptBody R P (attempts env attempt) cfg orch of
           (Inr metadata, orch') \<Rightarrow> (Some metadata, orch')
         | (Inl e, orch') \<Rightarrow>
             (let orch1 = updateJob (simId cfg)
                            (\<lambda>job. job\<lparr>retryCount := retryCount job + 1, jobError := Some e\<rparr>) orch'
              in if attempt < retries
                 then retryLoop R P env cfg retries (Suc attempt)
                        (logCalls [Slept (1000 * (attempt + 1))] orch1)
                 else (let orch2 = updateJob (simId cfg) (\<lambda>job. job\<lparr>status := Failed\<rparr>) orch1;
                           orch3 = orch2\<lparr>failedCount := failedCount orch2 + 1\<rparr>
                       in retryLoop R P env cfg retries (Suc attempt) (saveErrorInfo P env cfg orch3))))
      else (None, orch))"
  by pat_completeness auto
termination
  by (relation "measure (\<lambda>(R, P, env, cfg, retries, attempt, orch). Suc retries - attempt)") auto

declare retryLoop.simps [simp del]

text \<open>
  \<open>runWithRetry\<close>. \<open>this.jobs.get(config.id)!\<close> is undefined when the batch has no job
  of that id, and the first write to it throws. \<open>this.maxRetries\<close> is never written, so
  the loop bound is read once.
\<close>

definition runWithRetry :: "Renderer \<Rightarrow> PathLib \<Rightarrow> JobEnv \<Rightarrow> SimulationConfig \<Rightarrow> Orchestrator \<Rightarrow>
    (error + ref SimulationMetadata option) \<times> Orchestrator" where
  "runWithRetry R P env cfg orch =
     (case jobs orch (simId cfg) of
        None \<Rightarrow> (Inl TypeError, orch)
      | Some job \<Rightarrow>
          (let orch1 = updateJob (simId cfg) (\<lambda>job. job\<lparr>status := Running\<rparr>) orch;
               (result, orch') = retryLoop R P env cfg (maxRetries orch1) 0 orch1
           in (Inr result, orch')))"

text \<open>\<open>Partial<SimulationConfig>\<close>, the type of \<open>defaults\<close>.\<close>

record PartialConfig =
  defaultId :: "string option"
  defaultPreset :: "string option"
  defaultOptions :: "(string \<times> OptionValue) list option"
  defaultTotalFrames :: "int option"
  defaultTimestepsPerFrame :: "int option"
  defaultInterventions :: "ref list option"
  defaultOutputDir :: "string option"
  defaultRandomSeed :: "int option"
  defaultResolution :: "(int \<times> int) option"

text \<open>Object spread \<open>{...a, ...b}\<close> on key-value lists: a key of \<open>b\<close> overwrites in place
  or is added at the end.\<close>

definition spread :: "(string \<times> OptionValue) list \<Rightarrow> (string \<times> OptionValue) list \<Rightarrow> (string \<times> OptionValue) list" where
  "spread a b = foldl (\<lambda>acc (k, v). AList.update k v acc) a b"

definition orElse :: "'a option \<Rightarrow> 'a option \<Rightarrow> 'a option" where
  "orElse a b = (case a of Some v \<Rightarrow> Some v | None \<Rightarrow> b)"

text \<open>
  \<open>mergeWithDefaults\<close>. A \<open>SimulationConfig\<close> always has its required fields, so the
  defaults only fill the optional ones; \<open>options\<close> are merged key by key.
\<close>

definition mergeWithDefaults :: "SimulationConfig \<Rightarrow> PartialConfig option \<Rightarrow> SimulationConfig" where
  "mergeWithDefaults cfg defaults =
     (case defaults of
        None \<Rightarrow> cfg
      | Some d \<Rightarrow>
          cfg\<lparr> options := Some (spread (case defaultOptions d of None \<Rightarrow> [] | Some os \<Rightarrow> os)
                                       (case options cfg of None \<Rightarrow> [] | Some os \<Rightarrow> os)),
               interventions := orElse (interventions cfg) (defaultInterventions d),
               randomSeed := orElse (randomSeed cfg) (defaultRandomSeed d),
               resolution := orElse (resolution cfg) (defaultResolution d) \<rparr>)"

record BatchConfig =
  batchOutputDir :: string
  workers :: nat
  batchSimulations :: "SimulationConfig list"
  defaults :: "PartialConfig option"

text \<open>
  What a batch meets: the clock at its start and end, whether \<open>mkdir\<close> of the output
  root and \<open>writeFile\<close> of \<open>index.json\<close> resolve, what each job meets, by its
  position in \<open>config.simulations\<close>, and the timing of the tasks: \<open>finishes n\<close> tells
  which of the tasks running after \<open>n\<close> tasks have finished is the next to finish
  (counted among the running ones, modulo their number).
\<close>

record BatchEnv =
  clockStart :: int
  clockEnd :: int
  outputMkdirOk :: bool
  indexWriteOk :: bool
  jobEnv :: "nat \<Rightarrow> JobEnv"
  finishes :: "nat \<Rightarrow> nat"

text \<open>The loop "Initialize jobs".\<close>

definition initJob :: "SimulationConfig \<Rightarrow> JobStatus" where
  "initJob fullConfig =
     \<lparr> jobId = simId fullConfig, jobConfig = fullConfig, status = Pending,
       jobError = None, retryCount = 0 \<rparr>"

fun initJobs :: "PartialConfig option \<Rightarrow> SimulationConfig list \<Rightarrow> Orchestrator \<Rightarrow> Orchestrator" where
  "initJobs d [] orch = orch"
| "initJobs d (simConfig # rest) orch =
     (let fullConfig = mergeWithDefaults simConfig d
      in initJobs d rest (orch\<lparr>jobs := (jobs orch)(simId fullConfig \<mapsto> initJob fullConfig)\<rparr>))"

text \<open>
  The queued tasks. \<open>PQueue\<close> starts the tasks in queue order and keeps up to
  \<open>concurrency\<close> of them running, so the running tasks are the first \<open>concurrency\<close>
  of those that have not finished. They interleave at their \<open>await\<close>s; a task writes
  its own job object, adds to the two counters, and at its end pushes its result, so
  \<open>results\<close> is in the order in which the tasks finish. The model lets each task take
  effect as a whole at the moment it finishes. \<open>pending\<close> holds the unfinished tasks
  with their positions in \<open>config.simulations\<close>. A concurrency below 1 does not
  occur; \<open>max 1\<close> keeps \<open>nextToFinish\<close> below the number of unfinished tasks for
  every value of the field.
\<close>

definition nextToFinish :: "nat \<Rightarrow> nat \<Rightarrow> nat \<Rightarrow> nat" where
  "nextToFinish choice limit unfinished = choice mod (min (max 1 limit) unfinished)"

definition without :: "nat \<Rightarrow> 'a list \<Rightarrow> 'a list" where
  "without k xs = take k xs @ drop (Suc k) xs"

function runQueue :: "Renderer \<Rightarrow> PathLib \<Rightarrow> BatchEnv \<Rightarrow> PartialConfig option \<Rightarrow> nat \<Rightarrow>
    (nat \<times> SimulationConfig) list \<Rightarrow> ref SimulationMetadata list \<Rightarrow> Orchestrator \<Rightarrow>
    (error + ref SimulationMetadata list) \<times> Orchestrator" where
  "runQueue R P env d n pending results orch =
     (if pending = [] then (Inr results, orch)
      else
        (let k = nextToFinish (finishes env n) (concurrency orch) (length pending);
             fullConfig = mergeWithDefaults (snd (pending ! k)) d
         in case runWithRetry R P (jobEnv env (fst (pending ! k))) fullConfig orch of
              (Inl e, orch') \<Rightarrow> (Inl e, orch')
            | (Inr None, orch') \<Rightarrow>
                runQueue R P env d (Suc n) (without k pending) results orch'
            | (Inr (Some result), orch') \<Rightarrow>
                runQueue R P env d (Suc n) (without k pending) (results @ [result]) orch'))"
  by pat_completeness auto
termination
proof -
  have lt: "nextToFinish c l m < m" if "0 < m" for c l m :: nat
  proof -
    have "0 < min (max 1 l) m" using that by simp
    then have "c mod min (max 1 l) m < min (max 1 l) m" by (rule mod_less_divisor)
    then show ?thesis by (simp add: nextToFinish_def)
  qed
  have len: "length (without k xs) < length xs" if "k < length xs" for k and xs :: "'a list"
    using that by (simp add: without_def)
  show ?thesis
    by (relation "measure (\<lambda>(R, P, env, d, n, pending, results, orch). length pending)")
       (auto intro!: len lt)
qed

declare runQueue.simps [simp del]

definition indexEntry :: "PathLib \<Rightarrow> string \<Rightarrow> ref SimulationMetadata \<Rightarrow> IndexEntry" where
  "indexEntry P outDir m =
     \<lparr> entryId = metaId m, entryPreset = metaPreset m,
       entryPath = relative P outDir (dirname P (metaId m)) \<rparr>"

definition runBatch :: "Renderer \<Rightarrow> PathLib \<Rightarrow> BatchEnv \<Rightarrow> BatchConfig \<Rightarrow> Orchestrator \<Rightarrow>
    (error + ref SimulationMetadata list) \<times> Orchestrator" where
  "runBatch R P env bc orch =
     (let orch1 = orch\<lparr>startTime := clockStart env, completedCount := 0, failedCount := 0\<rparr>;
          orch2 = initJobs (defaults bc) (batchSimulations bc) orch1
      in if \<not> outputMkdirOk env then (Inl ArtifactWriteFailure, orch2)
         else (case runQueue R P env (defaults bc) 0 (enumerate 0 (batchSimulations bc)) []
                      (logCalls [FsMkdir (batchOutputDir bc)] orch2) of
                 (Inl e, orch3) \<Rightarrow> (Inl e, orch3)
               | (Inr results, orch3) \<Rightarrow>
                   (let index = \<lparr> total_simulations = length (batchSimulations bc),
                                  completed = completedCount orch3,
                                  failed = failedCount orch3,
                                  elapsed_ms = clockEnd env - startTime orch3,
                                  simulations = map (indexEntry P (batchOutputDir bc)) results \<rparr>
                    in if indexWriteOk env
                       then (Inr results,
                             logCalls [FsWriteFile (join P (batchOutputDir bc) ''index.json'')
                                         (IndexJson index)] orch3)
                       else (Inl ArtifactWriteFailure, orch3))))"

section \<open>Reading the logs\<close>

text \<open>What the properties below read off the Scheduler's log: the calls of
  \<open>runner.run\<close>, and the \<open>error.json\<close> and \<open>index.json\<close> documents written, each
  with its path.\<close>

definition isRunnerRun :: "call \<Rightarrow> bool" where
  "isRunnerRun c = (case c of RunnerRun page i \<Rightarrow> True | _ \<Rightarrow> False)"

fun errorDocs :: "call list \<Rightarrow> (string \<times> ErrorDoc) list" where
  "errorDocs [] = []"
| "errorDocs (FsWriteFile path (ErrorJson d) # cs) = (path, d) # errorDocs cs"
| "errorDocs (c # cs) = errorDocs cs"

fun indexDocs :: "call list \<Rightarrow> (string \<times> IndexDoc) list" where
  "indexDocs [] = []"
| "indexDocs (FsWriteFile path (IndexJson d) # cs) = (path, d) # indexDocs cs"
| "indexDocs (c # cs) = indexDocs cs"

text \<open>
  An attempt succeeds when \<open>acquirePage\<close> and \<open>runner.run\<close> resolve: the job has
  been executed and \<open>return metadata\<close> is reached. The attempt returns the metadata when
  \<open>releasePage\<close> resolves too; a rejection in \<open>finally\<close> replaces the return. The
  wrapper returns the metadata of a job when one of its attempts \<open>0 .. maxRetries\<close>
  does; a job fails when every one of these attempts fails.
\<close>

definition resolved :: "'e + 'a \<Rightarrow> bool" where
  "resolved r = (case r of Inr a \<Rightarrow> True | Inl e \<Rightarrow> False)"

definition attemptSucceeds :: "Renderer \<Rightarrow> PathLib \<Rightarrow> string \<Rightarrow> SimulationConfig \<Rightarrow> AttemptEnv \<Rightarrow> bool" where
  "attemptSucceeds R P html cfg env \<longleftrightarrow>
     resolved (acquireResult env) \<and> resolved (fst (run R P html cfg (runWorld env)))"

definition attemptReturns :: "Renderer \<Rightarrow> PathLib \<Rightarrow> string \<Rightarrow> SimulationConfig \<Rightarrow> AttemptEnv \<Rightarrow> bool" where
  "attemptReturns R P html cfg env \<longleftrightarrow>
     attemptSucceeds R P html cfg env \<and> releaseResult env = None"

definition jobReturns :: "Renderer \<Rightarrow> PathLib \<Rightarrow> string \<Rightarrow> nat \<Rightarrow> SimulationConfig \<Rightarrow> JobEnv \<Rightarrow> bool" where
  "jobReturns R P html retries cfg env \<longleftrightarrow>
     (\<exists>k \<in> {..retries}. attemptReturns R P html cfg (attempts env k))"

definition jobFails :: "Renderer \<Rightarrow> PathLib \<Rightarrow> string \<Rightarrow> nat \<Rightarrow> SimulationConfig \<Rightarrow> JobEnv \<Rightarrow> bool" where
  "jobFails R P html retries cfg env \<longleftrightarrow>
     (\<forall>k \<in> {..retries}. \<not> attemptSucceeds R P html cfg (attempts env k))"

text \<open>No attempt \<open>0 .. maxRetries\<close> of the job meets a \<open>releasePage\<close> that rejects
  after its run has resolved.\<close>

definition releasesCleanly :: "Renderer \<Rightarrow> PathLib \<Rightarrow> string \<Rightarrow> nat \<Rightarrow> SimulationConfig \<Rightarrow> JobEnv \<Rightarrow> bool" where
  "releasesCleanly R P html retries cfg env \<longleftrightarrow>
     (\<forall>k \<in> {..retries}. attemptSucceeds R P html cfg (attempts env k) \<longrightarrow>
                          releaseResult (attempts env k) = None)"

text \<open>The \<open>error.json\<close> of a job, with its path.\<close>

definition errorDocOf :: "PathLib \<Rightarrow> SimulationConfig \<Rightarrow> error \<Rightarrow> nat \<Rightarrow> string \<times> ErrorDoc" where
  "errorDocOf P cfg e n =
     (join P (outputDir cfg) ''error.json'',
      \<lparr> errorId = simId cfg, errorDetail = Some e, errorRetryCount = n \<rparr>)"

text \<open>What the retry loop, entered at \<open>attempt\<close> with the job object \<open>job\<close>, has done
  when it returns \<open>res\<close>; \<open>new\<close> is what it added to the log.\<close>

definition retryPost :: "Renderer \<Rightarrow> PathLib \<Rightarrow> JobEnv \<Rightarrow> SimulationConfig \<Rightarrow> nat \<Rightarrow> nat \<Rightarrow>
    Orchestrator \<Rightarrow> JobStatus \<Rightarrow> ref SimulationMetadata option \<Rightarrow> Orchestrator \<Rightarrow> call list \<Rightarrow> bool" where
  "retryPost R P env cfg retries attempt orch job res orch' new \<longleftrightarrow>
           calls orch' = calls orch @ new \<and>
           length (filter isRunnerRun new) \<le> Suc retries - attempt \<and>
           (res \<noteq> None \<longleftrightarrow>
              (\<exists>k. attempt \<le> k \<and> k \<le> retries \<and>
                   attemptReturns R P (poolHtmlPath orch) cfg (attempts env k))) \<and>
           (\<forall>m. res = Some m \<longrightarrow> metaId m = simId cfg \<and> metaPreset m = preset cfg) \<and>
           (res \<noteq> None \<longrightarrow> errorDocs new = []) \<and>
           (res = None \<longrightarrow> attempt \<le> retries \<longrightarrow>
              (\<exists>e. errorDocs new =
                 (if errorMkdirOk env \<and> errorWriteOk env
                  then [errorDocOf P cfg e (retryCount job + (Suc retries - attempt))] else []))) \<and>
           (res = None \<longrightarrow> \<not> attempt \<le> retries \<longrightarrow> new = []) \<and>
           poolHtmlPath orch' = poolHtmlPath orch"

text \<open>What no step of a job changes: the Scheduler's settings, the set of job ids, and
  the \<open>index.json\<close> documents written.\<close>

definition orchFrame :: "Orchestrator \<Rightarrow> Orchestrator \<Rightarrow> bool" where
  "orchFrame orch orch' \<longleftrightarrow>
     maxRetries orch' = maxRetries orch \<and> poolHtmlPath orch' = poolHtmlPath orch \<and>
     concurrency orch' = concurrency orch \<and> startTime orch' = startTime orch \<and>
     dom (jobs orch') = dom (jobs orch) \<and>
     (\<exists>new. calls orch' = calls orch @ new \<and> indexDocs new = [])"

text \<open>
  The order in which the tasks of a queue finish, and the jobs of a batch whose
  metadata the wrapper returns, in that order, with their defaults merged.
\<close>

function finishOrder :: "(nat \<Rightarrow> nat) \<Rightarrow> nat \<Rightarrow> nat \<Rightarrow> 'a list \<Rightarrow> 'a list" where
  "finishOrder choice limit n pending =
     (if pending = [] then []
      else (let k = nextToFinish (choice n) limit (length pending)
            in pending ! k # finishOrder choice limit (Suc n) (without k pending)))"
  by pat_completeness auto
termination
proof -
  have lt: "nextToFinish c l m < m" if "0 < m" for c l m :: nat
  proof -
    have "0 < min (max 1 l) m" using that by simp
    then have "c mod min (max 1 l) m < min (max 1 l) m" by (rule mod_less_divisor)
    then show ?thesis by (simp add: nextToFinish_def)
  qed
  have len: "length (without k xs) < length xs" if "k < length xs" for k and xs :: "'b list"
    using that by (simp add: without_def)
  show ?thesis
    by (relation "measure (\<lambda>(choice, limit, n, pending). length pending)")
       (auto intro!: len lt)
qed

declare finishOrder.simps [simp del]

definition taskReturns :: "Renderer \<Rightarrow> PathLib \<Rightarrow> BatchEnv \<Rightarrow> PartialConfig option \<Rightarrow> string \<Rightarrow> nat \<Rightarrow>
    nat \<times> SimulationConfig \<Rightarrow> bool" where
  "taskReturns R P env d html retries task \<longleftrightarrow>
     jobReturns R P html retries (mergeWithDefaults (snd task) d) (jobEnv env (fst task))"

definition taskFails :: "Renderer \<Rightarrow> PathLib \<Rightarrow> BatchEnv \<Rightarrow> PartialConfig option \<Rightarrow> string \<Rightarrow> nat \<Rightarrow>
    nat \<times> SimulationConfig \<Rightarrow> bool" where
  "taskFails R P env d html retries task \<longleftrightarrow>
     jobFails R P html retries (mergeWithDefaults (snd task) d) (jobEnv env (fst task))"

definition completedJobs :: "Renderer \<Rightarrow> PathLib \<Rightarrow> BatchEnv \<Rightarrow> PartialConfig option \<Rightarrow> string \<Rightarrow> nat \<Rightarrow>
    (nat \<times> SimulationConfig) list \<Rightarrow> SimulationConfig list" where
  "completedJobs R P env d html retries tasks =
     map (\<lambda>task. mergeWithDefaults (snd task) d) (filter (taskReturns R P env d html retries) tasks)"

text \<open>Every job of the batch releases cleanly.\<close>

definition batchReleasesCleanly :: "Renderer \<Rightarrow> PathLib \<Rightarrow> BatchEnv \<Rightarrow> PartialConfig option \<Rightarrow> string \<Rightarrow> nat \<Rightarrow>
    (nat \<times> SimulationConfig) list \<Rightarrow> bool" where
  "batchReleasesCleanly R P env d html retries tasks \<longleftrightarrow>
     (\<forall>task \<in> set tasks.
        releasesCleanly R P html retries (mergeWithDefaults (snd task) d) (jobEnv env (fst task)))"

definition idAndPreset :: "'i SimulationMetadata \<Rightarrow> string \<times> string" where
  "idAndPreset m = (metaId m, metaPreset m)"

section \<open>Sample inputs\<close>

text \<open>
  A renderer whose clock is the number of calls made so far; \<open>path.join\<close> on plain
  segments; a store in which object \<open>r\<close> is a brush scheduled at frame \<open>r\<close>; a job of
  two frames with interventions at frames 1, 0 and 5.
\<close>

definition sampleRenderer :: Renderer where
  "sampleRenderer =
     \<lparr> getTime = (\<lambda>tr. real (length tr)),
       captureFrame = (\<lambda>tr. ''data:image/png;base64,iVBOR''),
       getOptions = (\<lambda>tr. [(''dt'', Num 1)]) \<rparr>"

definition samplePaths :: PathLib where
  "samplePaths = \<lparr> join = (\<lambda>a b. a @ ''/'' @ b), dirname = (\<lambda>p. ''.''), relative = (\<lambda>a b. b) \<rparr>"

definition sampleStore :: store where
  "sampleStore r =
     \<lparr> frame = int r, simulationTime = None, itype = Brush,
       params = \<lparr> brush_x = 1/2, brush_y = 1/4, brush_species = Species_u, brush_value = 1,
                  brush_radius = 1/10, brush_shape = Some Circle, brush_action = Some Replace \<rparr> \<rparr>"

definition sampleConfig :: SimulationConfig where
  "sampleConfig =
     \<lparr> simId = ''job-1'', preset = ''GrayScott'', options = Some [(''dt'', Num 1)],
       totalFrames = 2, timestepsPerFrame = 100, interventions = Some [1, 0, 5],
       outputDir = ''out/GrayScott/job-1'', randomSeed = Some 42, resolution = None \<rparr>"

definition otherConfig :: SimulationConfig where
  "otherConfig = sampleConfig\<lparr>simId := ''job-2'', outputDir := ''out/GrayScott/job-2''\<rparr>"

definition thirdConfig :: SimulationConfig where
  "thirdConfig = sampleConfig\<lparr>simId := ''job-3'', outputDir := ''out/GrayScott/job-3''\<rparr>"

text \<open>
  An attempt whose run meets a file system that rejects its first call, and one whose
  calls all resolve. Scenario B of the specification is the job whose every attempt
  fails; \<open>readOnlyJob\<close> is the same job where \<open>mkdir\<close> for \<open>error.json\<close> is rejected
  too.
\<close>

definition failingAttempt :: AttemptEnv where
  "failingAttempt =
     \<lparr> acquireResult = Inr (Page 0 1), runWorld = newWorld sampleStore (Some 0),
       releaseResult = None \<rparr>"

definition passingAttempt :: AttemptEnv where
  "passingAttempt =
     \<lparr> acquireResult = Inr (Page 0 1), runWorld = newWorld sampleStore None,
       releaseResult = None \<rparr>"

definition doomedJob :: JobEnv where
  "doomedJob = \<lparr> attempts = (\<lambda>k. failingAttempt), errorMkdirOk = True, errorWriteOk = True \<rparr>"

definition readOnlyJob :: JobEnv where
  "readOnlyJob = \<lparr> attempts = (\<lambda>k. failingAttempt), errorMkdirOk = False, errorWriteOk = False \<rparr>"

definition healthyJob :: JobEnv where
  "healthyJob = \<lparr> attempts = (\<lambda>k. passingAttempt), errorMkdirOk = True, errorWriteOk = True \<rparr>"

definition schedulerFor :: "nat \<Rightarrow> SimulationConfig \<Rightarrow> Orchestrator" where
  "schedulerFor retries cfg =
     (newOrchestrator ''index.html'' 1 retries)\<lparr>jobs := [simId cfg \<mapsto> initJob cfg]\<rparr>"

text \<open>
  A batch of three jobs on two workers, the second of which fails for good; of the two
  tasks running, the later one always finishes first. A batch of one job that fails.
\<close>

definition mixedBatchEnv :: BatchEnv where
  "mixedBatchEnv =
     \<lparr> clockStart = 1000, clockEnd = 6000, outputMkdirOk = True, indexWriteOk = True,
       jobEnv = (\<lambda>i. if i = 1 then doomedJob else healthyJob), finishes = (\<lambda>n. 1) \<rparr>"

definition doomedBatchEnv :: BatchEnv where
  "doomedBatchEnv =
     \<lparr> clockStart = 1000, clockEnd = 6000, outputMkdirOk = True, indexWriteOk = True,
       jobEnv = (\<lambda>i. doomedJob), finishes = (\<lambda>n. 0) \<rparr>"

definition mixedBatch :: BatchConfig where
  "mixedBatch =
     \<lparr> batchOutputDir = ''out'', workers = 2,
       batchSimulations = [sampleConfig, otherConfig, thirdConfig], defaults = None \<rparr>"

definition failingBatch :: BatchConfig where
  "failingBatch =
     \<lparr> batchOutputDir = ''out'', workers = 1, batchSimulations = [otherConfig],
       defaults = None \<rparr>"

section \<open>Reading the trace of a run\<close>

text \<open>The intervention objects \<open>applyBrush\<close> was called for, in the order of the calls; the calls that configure the solver (option overrides, recomputation of derived parameters, reset); \<open>config.interventions || []\<close>.\<close>

fun appliedRefs :: "event list \<Rightarrow> ref list" where
  "appliedRefs [] = []"
| "appliedRefs (ApplyBrush r x y s v rad # es) = r # appliedRefs es"
| "appliedRefs (e # es) = appliedRefs es"

fun isConfigStep :: "event \<Rightarrow> bool" where
  "isConfigStep (SetOption key v) = True"
| "isConfigStep UpdateProblem = True"
| "isConfigStep Reset = True"
| "isConfigStep e = False"

definition configInterventions :: "SimulationConfig \<Rightarrow> ref list" where
  "configInterventions cfg = (case interventions cfg of None \<Rightarrow> [] | Some ivs \<Rightarrow> ivs)"

text \<open>The body of the inner \<open>while\<close>: apply one intervention, read the time, record it on the object.\<close>

definition applyOne :: "Renderer \<Rightarrow> ref \<Rightarrow> unit action" where
  "applyOne R q =
     andThen (applyIntervention q) (\<lambda>_.
     andThen (await RemoteCallFailure [GetTime] (getTime R)) (\<lambda>simTime.
     setSimulationTime q simTime))"

text \<open>The steps of \<open>run\<close> from the option overrides on, and the step before them.\<close>

definition seedStep :: "SimulationConfig \<Rightarrow> unit action" where
  "seedStep cfg = (case randomSeed cfg of
                    None \<Rightarrow> resolve ()
                  | Some seed \<Rightarrow> await RemoteCallFailure [SetSeed seed] (\<lambda>_. ()))"

definition afterSeed :: "Renderer \<Rightarrow> PathLib \<Rightarrow> SimulationConfig \<Rightarrow> string \<Rightarrow> ref SimulationMetadata action" where
  "afterSeed R P cfg framesDir =
         andThen (case options cfg of
                    None \<Rightarrow> resolve ()
                  | Some opts \<Rightarrow>
                      if length opts > 0
                      then await RemoteCallFailure
                             (map (\<lambda>(key, v). SetOption key v) opts @ [UpdateProblem]) (\<lambda>_. ())
                      else resolve ()) (\<lambda>_.
         andThen (await RemoteCallFailure [Reset] (\<lambda>_. ())) (\<lambda>_.
         andThen (\<lambda>w. frameLoop R P cfg framesDir (sortedInterventions (heap w) cfg) 0 0 [] w)
           (\<lambda>annotations.
         andThen (collectMetadata R cfg annotations) (\<lambda>metadata.
         andThen (\<lambda>w. await ArtifactWriteFailure
                         [WriteFile (join P (outputDir cfg) ''metadata.json'')
                                    (MetadataJson (stringify (heap w) metadata))] (\<lambda>_. ()) w) (\<lambda>_.
         resolve metadata)))))"

text \<open>Relations between the world before and after an action, for any outcome of the action. \<open>keeps pre Q m\<close>: from a world with \<open>pre\<close>, \<open>m\<close> leads to a world related by \<open>Q\<close>, whether it resolves or rejects. \<open>passes\<close>: \<open>Q\<close> is reflexive and transitive and carries \<open>pre\<close> along. \<open>stepsOk\<close>: every single step a run can make respects \<open>Q\<close> (an awaited call that applies no brush, the brush call for an intervention due before frame \<open>T\<close>, the write of its \<open>simulationTime\<close>).\<close>

definition keeps :: "(World \<Rightarrow> bool) \<Rightarrow> (World \<Rightarrow> World \<Rightarrow> bool) \<Rightarrow> 'a action \<Rightarrow> bool" where
  "keeps pre Q m \<longleftrightarrow> (\<forall>w r w'. pre w \<longrightarrow> m w = (r, w') \<longrightarrow> Q w w')"

definition passes :: "(World \<Rightarrow> bool) \<Rightarrow> (World \<Rightarrow> World \<Rightarrow> bool) \<Rightarrow> bool" where
  "passes pre Q \<longleftrightarrow> (\<forall>w. pre w \<longrightarrow> Q w w) \<and>
                   (\<forall>w w' w''. Q w w' \<longrightarrow> Q w' w'' \<longrightarrow> Q w w'') \<and>
                   (\<forall>w w'. pre w \<longrightarrow> Q w w' \<longrightarrow> pre w')"

definition stepsOk :: "int \<Rightarrow> (World \<Rightarrow> bool) \<Rightarrow> (World \<Rightarrow> World \<Rightarrow> bool) \<Rightarrow> bool" where
  "stepsOk T pre Q \<longleftrightarrow>
     passes pre Q \<and>
     (\<forall>w evs k. pre w \<longrightarrow> appliedRefs evs = [] \<longrightarrow>
        Q w (w\<lparr>trace := trace w @ evs, failAfter := k\<rparr>)) \<and>
     (\<forall>w q x y s v rad k. pre w \<longrightarrow> frame (heap w q) < T \<longrightarrow>
        Q w (w\<lparr>trace := trace w @ [ApplyBrush q x y s v rad], failAfter := k\<rparr>)) \<and>
     (\<forall>w q t. pre w \<longrightarrow> frame (heap w q) < T \<longrightarrow>
        Q w (w\<lparr>heap := (heap w)(q := (heap w q)\<lparr>simulationTime := Some t\<rparr>)\<rparr>))"

text \<open>Two such relations: the log only grows; the object \<open>r\<close> is neither written nor applied.\<close>

definition extends :: "World \<Rightarrow> World \<Rightarrow> bool" where
  "extends w w' \<longleftrightarrow> (\<exists>new. trace w' = trace w @ new)"

definition untouched :: "ref \<Rightarrow> World \<Rightarrow> World \<Rightarrow> bool" where
  "untouched r w w' \<longleftrightarrow>
     heap w' r = heap w r \<and> (r \<in> set (appliedRefs (trace w')) \<longrightarrow> r \<in> set (appliedRefs (trace w)))"

section \<open>Reading the frames and the interventions of a run\<close>

text \<open>The paths of the image files written, in the order of the writes; the number of
  \<open>stepN\<close> calls in a log.\<close>

fun frameWrites :: "event list \<Rightarrow> string list" where
  "frameWrites [] = []"
| "frameWrites (WriteFile path (Png d) # es) = path # frameWrites es"
| "frameWrites (e # es) = frameWrites es"

fun isStepN :: "event \<Rightarrow> bool" where
  "isStepN (StepN n) = True"
| "isStepN e = False"

definition stepsIn :: "event list \<Rightarrow> nat" where
  "stepsIn tr = length (filter isStepN tr)"

text \<open>
  Reading a file name back: the number its digits denote, and what the name of frame
  \<open>i\<close> looks like. \<open>sixDigits\<close>: six decimal digits that denote \<open>i\<close>, then \<open>.png\<close>.
  \<open>zeroPadded\<close>: decimal digits that denote \<open>i\<close>, at least six of them, with a leading
  zero only to reach six, then \<open>.png\<close>.
\<close>

definition digitValue :: "char \<Rightarrow> nat" where
  "digitValue c = of_char c - 48"

definition decimalValue :: "string \<Rightarrow> nat" where
  "decimalValue s = foldl (\<lambda>a c. 10 * a + digitValue c) 0 s"

definition isDigit :: "char \<Rightarrow> bool" where
  "isDigit c \<longleftrightarrow> 48 \<le> (of_char c :: nat) \<and> (of_char c :: nat) \<le> 57"

definition sixDigits :: "nat \<Rightarrow> string \<Rightarrow> bool" where
  "sixDigits i s \<longleftrightarrow>
     length s = 10 \<and> drop 6 s = ''.png'' \<and> (\<forall>c \<in> set (take 6 s). isDigit c) \<and>
     decimalValue (take 6 s) = i"

definition stem :: "string \<Rightarrow> string" where
  "stem s = take (length s - 4) s"

definition zeroPadded :: "nat \<Rightarrow> string \<Rightarrow> bool" where
  "zeroPadded i s \<longleftrightarrow>
     drop (length s - 4) s = ''.png'' \<and> 6 \<le> length (stem s) \<and>
     (\<forall>c \<in> set (stem s). isDigit c) \<and> decimalValue (stem s) = i \<and>
     (6 < length (stem s) \<longrightarrow> hd (stem s) \<noteq> CHR ''0'')"

text \<open>The frame files written are the same in two worlds. The \<open>applyBrush\<close> call of an
  intervention object. The calls other than \<open>applyBrush\<close>, \<open>stepN\<close> and the write of an
  image.\<close>

definition sameFrames :: "World \<Rightarrow> World \<Rightarrow> bool" where
  "sameFrames w w' \<longleftrightarrow> frameWrites (trace w') = frameWrites (trace w)"

definition brushEvent :: "store \<Rightarrow> ref \<Rightarrow> event" where
  "brushEvent h q =
     (let p = params (h q)
      in ApplyBrush q (brush_x p) (brush_y p) (brush_species p) (brush_value p) (brush_radius p))"

fun isQuiet :: "event \<Rightarrow> bool" where
  "isQuiet (ApplyBrush r x y s v rad) = False"
| "isQuiet (StepN n) = False"
| "isQuiet (WriteFile path (Png d)) = False"
| "isQuiet e = True"

text \<open>
  A triple for an action: from a world with \<open>P\<close>, the action leads to a world with \<open>E\<close>
  when it rejects and with \<open>S a\<close> when it resolves with \<open>a\<close>.
\<close>

definition hoare :: "(World \<Rightarrow> bool) \<Rightarrow> 'a action \<Rightarrow> (World \<Rightarrow> bool) \<Rightarrow> ('a \<Rightarrow> World \<Rightarrow> bool) \<Rightarrow> bool" where
  "hoare P m E S \<longleftrightarrow>
     (\<forall>w r w'. P w \<longrightarrow> m w = (r, w') \<longrightarrow> (case r of Inl e \<Rightarrow> E w' | Inr a \<Rightarrow> S a w'))"


definition appliedAtFrame :: "Renderer \<Rightarrow> store \<Rightarrow> ref \<Rightarrow> World \<Rightarrow> bool" where
  "appliedAtFrame R h q w \<longleftrightarrow>
     (\<exists>pre post. trace w = pre @ brushEvent h q # GetTime # post \<and>
                 stepsIn pre = nat (frame (h q)) \<and>
                 length (frameWrites pre) = nat (frame (h q)) \<and>
                 simulationTime (heap w q) = Some (getTime R (pre @ [brushEvent h q])))"

definition orderly :: "Renderer \<Rightarrow> store \<Rightarrow> ref list \<Rightarrow> World \<Rightarrow> bool" where
  "orderly R h ivs w \<longleftrightarrow>
     sorted (map (\<lambda>q. frame (h q)) (appliedRefs (trace w))) \<and>
     (\<forall>q \<in> set ivs. nat (frame (h q)) < stepsIn (trace w) \<longrightarrow> appliedAtFrame R h q w) \<and>
     (\<forall>q. heap w q = h q \<or> appliedAtFrame R h q w)"


text \<open>A job of 1000001 frames.\<close>

definition longConfig :: SimulationConfig where
  "longConfig = sampleConfig\<lparr>totalFrames := 1000001\<rparr>"

section \<open>Properties of the worker pool\<close>

lemma launchBrowser_config:
  "launchBrowser env pool = Inr (b, pool') \<Longrightarrow> pool' = pool\<lparr>nextHandle := Suc (nextHandle pool)\<rparr> \<and> b = nextHandle pool"
  by (auto simp: launchBrowser_def split: if_splits)

lemma createPage_config:
  "createPage env b pool = Inr (pg, pool') \<Longrightarrow> pool' = pool\<lparr>nextHandle := Suc (nextHandle pool)\<rparr> \<and> pg = Page b (nextHandle pool)"
  by (auto simp: createPage_def split: if_splits)

lemma initializeFrom_step:
  assumes "initializeFrom envs i pool = (None, pool')" "i < poolSize (config pool)"
  shows "\<exists>pool4. initializeFrom envs (Suc i) pool4 = (None, pool') \<and>
           config pool4 = config pool \<and> busyPages pool4 = busyPages pool \<and>
           isShuttingDown pool4 = isShuttingDown pool \<and>
           length (availablePages pool4) = Suc (length (availablePages pool)) \<and>
           simCountPerBrowser pool4 = (simCountPerBrowser pool)(nextHandle pool \<mapsto> 0)"
  using assms
  by (subst (asm) initializeFrom.simps)
     (auto simp: launchBrowser_def createPage_def Let_def split: if_splits)

lemma initializeFrom_inv:
  "initializeFrom envs i pool = (None, pool') \<Longrightarrow> i \<le> poolSize (config pool) \<Longrightarrow>
   config pool' = config pool \<and> busyPages pool' = busyPages pool \<and>
   isShuttingDown pool' = isShuttingDown pool \<and>
   length (availablePages pool') = length (availablePages pool) + (poolSize (config pool) - i) \<and>
   (0 < T \<longrightarrow> countsBelow T pool \<longrightarrow> countsBelow T pool')"
proof (induction n \<equiv> "poolSize (config pool) - i" arbitrary: i pool)
  case 0
  then show ?case by (simp add: initializeFrom.simps[of envs i pool])
next
  case (Suc n)
  then have lt: "i < poolSize (config pool)" by simp
  from initializeFrom_step[OF Suc.prems(1) lt] obtain pool4 where
    R: "initializeFrom envs (Suc i) pool4 = (None, pool')" and
    c: "config pool4 = config pool" "busyPages pool4 = busyPages pool"
       "isShuttingDown pool4 = isShuttingDown pool"
       "length (availablePages pool4) = Suc (length (availablePages pool))"
       "simCountPerBrowser pool4 = (simCountPerBrowser pool)(nextHandle pool \<mapsto> 0)"
    by blast
  have n: "n = poolSize (config pool4) - Suc i" using Suc.hyps(2) c by simp
  have le: "Suc i \<le> poolSize (config pool4)" using lt c by simp
  have cb: "0 < T \<Longrightarrow> countsBelow T pool \<Longrightarrow> countsBelow T pool4"
    using c by (auto simp: countsBelow_def)
  from Suc.hyps(1)[OF n R le] c lt cb show ?case by auto
qed

lemma initialize_inv:
  assumes "initialize envs (newBrowserPool cfg) = (None, pool)"
  shows "config pool = cfg" "busyPages pool = {}" "\<not> isShuttingDown pool"
        "length (availablePages pool) = poolSize cfg"
        "0 < T \<Longrightarrow> countsBelow T pool"
proof -
  have cb: "countsBelow T (newBrowserPool cfg)" by (simp add: countsBelow_def newBrowserPool_def)
  from initializeFrom_inv[OF assms[unfolded initialize_def], of T] cb
  show "config pool = cfg" "busyPages pool = {}" "\<not> isShuttingDown pool"
        "length (availablePages pool) = poolSize cfg"
        "0 < T \<Longrightarrow> countsBelow T pool"
    by (simp_all add: newBrowserPool_def)
qed

lemma restartBrowser_shape:
  "restartBrowser b page env pool = (r, pool') \<Longrightarrow>
   config pool' = config pool \<and> busyPages pool' = busyPages pool \<and>
   isShuttingDown pool' = isShuttingDown pool \<and>
   length (availablePages pool') \<le> Suc (length (availablePages pool)) \<and>
   (simCountPerBrowser pool' = (simCountPerBrowser pool)(b := None) \<or>
    simCountPerBrowser pool' = ((simCountPerBrowser pool)(b := None))(nextHandle pool \<mapsto> 0))"
  unfolding restartBrowser_def launchBrowser_def createPage_def Let_def
  by (cases "launchOk env"; cases "createPageOk env") auto

lemma countsBelow_upd: "countsBelow T pool \<Longrightarrow> 0 < T \<Longrightarrow>
   simCountPerBrowser pool' = ((simCountPerBrowser pool)(b := None))(h \<mapsto> 0) \<Longrightarrow> countsBelow T pool'"
  by (auto simp: countsBelow_def split: if_splits)

lemma countsBelow_del: "countsBelow T pool \<Longrightarrow>
   simCountPerBrowser pool' = (simCountPerBrowser pool)(b := None) \<Longrightarrow> countsBelow T pool'"
  by (auto simp: countsBelow_def split: if_splits)

lemma countsBelow_set: "countsBelow T pool \<Longrightarrow> 0 \<le> c \<Longrightarrow> c < T \<Longrightarrow>
   simCountPerBrowser pool' = (simCountPerBrowser pool)(b \<mapsto> c) \<Longrightarrow> countsBelow T pool'"
  by (auto simp: countsBelow_def split: if_splits)

lemma simCount_nonneg: "countsBelow T pool \<Longrightarrow> 0 \<le> simCount pool b \<and> (0 < T \<longrightarrow> simCount pool b < T)"
  by (auto simp: countsBelow_def simCount_def split: option.splits)

lemma releasePage_alt:
  "releasePage page env pool =
     (if simCount pool (browser page) + 1 \<ge> maxSims (config pool)
      then restartBrowser (browser page) page env (released page pool)
      else if gotoOk env
           then (None, (released page pool)\<lparr>availablePages := availablePages pool @ [page]\<rparr>)
           else if createPageOk env
           then (None, (released page pool)\<lparr>nextHandle := Suc (nextHandle pool),
                    availablePages := availablePages pool @ [Page (browser page) (nextHandle pool)]\<rparr>)
           else (Some PageCreationFailure, released page pool))"
  by (simp add: releasePage_def released_def Let_def simCount_def createPage_def)

lemma releasePage_config: "releasePage page env pool = (r, pool') \<Longrightarrow> config pool' = config pool"
  unfolding releasePage_alt
  by (auto simp: released_def split: if_splits dest: restartBrowser_shape)

lemma releasePage_available:
  "releasePage page env pool = (r, pool') \<Longrightarrow>
   length (availablePages pool') \<le> Suc (length (availablePages pool)) \<and>
   busyPages pool' = busyPages pool - {page}"
  unfolding releasePage_alt
  by (auto simp: released_def split: if_splits dest: restartBrowser_shape)

lemma releasePage_countsBelow:
  assumes R: "releasePage page env pool = (r, pool')" and T: "1 \<le> maxSims (config pool)"
    and cb: "countsBelow (maxSims (config pool)) pool"
  shows "countsBelow (maxSims (config pool)) pool'"
proof (cases "simCount pool (browser page) + 1 \<ge> maxSims (config pool)")
  case True
  with R have "restartBrowser (browser page) page env (released page pool) = (r, pool')"
    by (simp add: releasePage_alt)
  from restartBrowser_shape[OF this]
  have "simCountPerBrowser pool' = (simCountPerBrowser pool)(browser page := None) \<or>
        simCountPerBrowser pool' = ((simCountPerBrowser pool)(browser page := None))(nextHandle pool \<mapsto> 0)"
    by (simp add: released_def)
  then show ?thesis using cb T countsBelow_upd[of _ pool pool'] countsBelow_del[of _ pool pool'] by fastforce
next
  case False
  with R have "simCountPerBrowser pool' = (simCountPerBrowser pool)(browser page \<mapsto> simCount pool (browser page) + 1)"
    by (auto simp: releasePage_alt released_def split: if_splits)
  then show ?thesis using countsBelow_set[OF cb, of "simCount pool (browser page) + 1" pool' "browser page"]
      False simCount_nonneg[OF cb, of "browser page"] by simp
qed

lemma acquirePage_Got:
  "acquirePage pool = (Got page, pool') \<Longrightarrow>
   availablePages pool \<noteq> [] \<and> \<not> isShuttingDown pool \<and> page = last (availablePages pool) \<and>
   pool' = pool\<lparr>availablePages := butlast (availablePages pool),
                  busyPages := insert page (busyPages pool)\<rparr>"
  by (auto simp: acquirePage_def Let_def split: if_splits)

lemma reachable_inv:
  "reachable cfg st \<Longrightarrow>
   config (fst st) = cfg \<and> finite (snd st) \<and> busyPages (fst st) \<subseteq> snd st \<and>
   length (availablePages (fst st)) + card (snd st) \<le> poolSize cfg"
proof (induction rule: reachable.induct)
  case (reach_init envs pool)
  then show ?case using initialize_inv[of envs cfg pool] by simp
next
  case (reach_acquire pool leases page pool')
  note G = acquirePage_Got[OF reach_acquire.hyps(2)]
  from G have pos: "0 < length (availablePages pool)" by simp
  have "card (insert page leases) \<le> Suc (card leases)"
    using reach_acquire.IH by (simp add: card_insert_if)
  moreover have "length (availablePages pool') = length (availablePages pool) - 1"
    using G by simp
  ultimately have "length (availablePages pool') + card (insert page leases)
                     \<le> length (availablePages pool) + card leases"
    using pos by arith
  moreover have "busyPages pool' \<subseteq> insert page leases" using G reach_acquire.IH by auto
  moreover have "config pool' = cfg" using G reach_acquire.IH by auto
  ultimately show ?case using reach_acquire.IH by simp
next
  case (reach_release pool leases page env r pool')
  note A = releasePage_available[OF reach_release.hyps(3)]
  have fin: "finite leases" using reach_release.IH by simp
  then have "0 < card leases" using reach_release.hyps(2) by (auto simp: card_gt_0_iff)
  moreover have "card (leases - {page}) = card leases - 1"
    using reach_release.hyps(2) fin by simp
  ultimately have "length (availablePages pool') + card (leases - {page})
                     \<le> length (availablePages pool) + card leases"
    using A by arith
  moreover have "busyPages pool' \<subseteq> leases - {page}" using A reach_release.IH by auto
  moreover have "config pool' = cfg"
    using releasePage_config[OF reach_release.hyps(3)] reach_release.IH by simp
  ultimately show ?case using reach_release.IH by simp
next
  case (reach_shutdownBegin pool leases)
  then show ?case by (simp add: shutdownBegin_def)
next
  case (reach_shutdownFinish pool leases)
  then show ?case by (simp add: shutdownFinish_def)
qed

lemma reachable_countsBelow:
  "reachable cfg st \<Longrightarrow> 1 \<le> maxSims cfg \<Longrightarrow> countsBelow (maxSims cfg) (fst st)"
proof (induction rule: reachable.induct)
  case (reach_init envs pool)
  then show ?case using initialize_inv(5)[of envs cfg pool "maxSims cfg"] by simp
next
  case (reach_acquire pool leases page pool')
  from acquirePage_Got[OF reach_acquire.hyps(2)] reach_acquire.IH reach_acquire.prems
  show ?case by (auto simp: countsBelow_def)
next
  case (reach_release pool leases page env r pool')
  from releasePage_countsBelow[OF reach_release.hyps(3)] reach_release.IH reach_release.prems
     reachable_inv[OF reach_release.hyps(1)]
  show ?case by simp
next
  case (reach_shutdownBegin pool leases)
  then show ?case by (simp add: shutdownBegin_def countsBelow_def)
next
  case (reach_shutdownFinish pool leases)
  then show ?case by (simp add: shutdownFinish_def countsBelow_def)
qed

lemma initializeFrom_handles:
  "initializeFrom envs i pool = (None, pool') \<Longrightarrow> i \<le> poolSize (config pool) \<Longrightarrow>
   handlesBelow pool {} \<Longrightarrow> handlesBelow pool' {}"
proof (induction n \<equiv> "poolSize (config pool) - i" arbitrary: i pool)
  case 0
  then show ?case by (simp add: initializeFrom.simps[of envs i pool])
next
  case (Suc n)
  then have lt: "i < poolSize (config pool)" by simp
  from Suc.prems(1) lt obtain pool4 where
    R: "initializeFrom envs (Suc i) pool4 = (None, pool')" and
    c: "config pool4 = config pool"
       "browsers pool4 = browsers pool @ [nextHandle pool]"
       "availablePages pool4 = availablePages pool @ [Page (nextHandle pool) (Suc (nextHandle pool))]"
       "nextHandle pool4 = Suc (Suc (nextHandle pool))"
    by (subst (asm) initializeFrom.simps)
       (auto simp: launchBrowser_def createPage_def Let_def split: if_splits)
  have n: "n = poolSize (config pool4) - Suc i" using Suc.hyps(2) c by simp
  have le: "Suc i \<le> poolSize (config pool4)" using lt c by simp
  have hb: "handlesBelow pool4 {}"
    using Suc.prems(3) c by (fastforce simp: handlesBelow_def)
  from Suc.hyps(1)[OF n R le hb] show ?case .
qed

lemma acquire_handles:
  "acquirePage pool = (Got page, pool') \<Longrightarrow> handlesBelow pool L \<Longrightarrow> handlesBelow pool' (insert page L)"
  by (drule acquirePage_Got) (auto simp: handlesBelow_def dest: in_set_butlastD)

lemma restartBrowser_handles:
  assumes "restartBrowser b page env pool = (r, pool')" "handlesBelow pool L"
  shows "handlesBelow pool' L"
  using assms unfolding restartBrowser_def launchBrowser_def createPage_def Let_def handlesBelow_def
  by (cases "launchOk env"; cases "createPageOk env") (fastforce dest: notin_set_remove1)+

lemma released_handles: "handlesBelow pool L \<Longrightarrow> handlesBelow (released page pool) L"
  by (simp add: handlesBelow_def released_def)

lemma handlesBelow_mono: "handlesBelow pool L \<Longrightarrow> L' \<subseteq> L \<Longrightarrow> handlesBelow pool L'"
  by (auto simp: handlesBelow_def)

lemma release_handles:
  assumes R: "releasePage page env pool = (r, pool')" and hb: "handlesBelow pool L" and pg: "page \<in> L"
  shows "handlesBelow pool' L"
proof (cases "simCount pool (browser page) + 1 \<ge> maxSims (config pool)")
  case True
  with R have "restartBrowser (browser page) page env (released page pool) = (r, pool')"
    by (simp add: releasePage_alt)
  from restartBrowser_handles[OF this released_handles[OF hb]] show ?thesis .
next
  case False
  with R hb pg show ?thesis
    by (auto simp: releasePage_alt released_def handlesBelow_def less_Suc_eq split: if_splits)
qed

lemma reachable_handles: "reachable cfg st \<Longrightarrow> handlesBelow (fst st) (snd st)"
proof (induction rule: reachable.induct)
  case (reach_init envs pool)
  have "handlesBelow (newBrowserPool cfg) {}" by (simp add: handlesBelow_def newBrowserPool_def)
  from initializeFrom_handles[OF reach_init[unfolded initialize_def] _ this] show ?case by simp
next
  case (reach_acquire pool leases page pool')
  then show ?case using acquire_handles by simp
next
  case (reach_release pool leases page env r pool')
  then show ?case using release_handles handlesBelow_mono[of pool' leases "leases - {page}"] by auto
next
  case (reach_shutdownBegin pool leases)
  then show ?case by (simp add: shutdownBegin_def handlesBelow_def)
next
  case (reach_shutdownFinish pool leases)
  then show ?case by (simp add: shutdownFinish_def handlesBelow_def)
qed

lemma restart_tornDown:
  assumes R: "restartBrowser b page env pool = (r, pool')"
    and d: "distinct (browsers pool)" and bh: "b < nextHandle pool"
    and bs: "\<forall>x\<in>set (browsers pool). x < nextHandle pool"
  shows "closedBrowsers pool' = closedBrowsers pool @ [b]" "b \<notin> set (browsers pool')"
        "simCountPerBrowser pool' b = None"
        "launchOk env \<Longrightarrow> createPageOk env \<Longrightarrow>
           r = None \<and> nextHandle pool \<noteq> b \<and> nextHandle pool \<notin> set (browsers pool) \<and>
           browsers pool' = remove1 b (browsers pool) @ [nextHandle pool] \<and>
           simCountPerBrowser pool' (nextHandle pool) = Some 0 \<and>
           availablePages pool' = availablePages pool @ [Page (nextHandle pool) (Suc (nextHandle pool))]"
  using assms unfolding restartBrowser_def launchBrowser_def createPage_def Let_def
  by (cases "launchOk env"; cases "createPageOk env"; fastforce)+

lemma release_recycle:
  assumes re: "reachable cfg (pool, leases)" and pg: "page \<in> leases" and T: "1 \<le> maxSims cfg"
    and R: "releasePage page env pool = (r, pool')"
  shows "simCount pool (browser page) + 1 \<le> maxSims cfg"
    and "simCount pool (browser page) + 1 = maxSims cfg \<Longrightarrow> tornDown (browser page) pool pool'"
    and "simCount pool (browser page) + 1 = maxSims cfg \<Longrightarrow> launchOk env \<Longrightarrow> createPageOk env \<Longrightarrow>
           r = None \<and> replacedBy (browser page) (nextHandle pool) pool pool'"
    and "simCount pool (browser page) + 1 < maxSims cfg \<Longrightarrow> keptAlive (browser page) pool pool'"
proof -
  have cfg: "config pool = cfg" using reachable_inv[OF re] by simp
  have cb: "countsBelow (maxSims cfg) pool" using reachable_countsBelow[OF re T] by simp
  have hb: "handlesBelow pool leases" using reachable_handles[OF re] by simp
  show le: "simCount pool (browser page) + 1 \<le> maxSims cfg"
    using simCount_nonneg[OF cb, of "browser page"] T by simp
  {
    assume eq: "simCount pool (browser page) + 1 = maxSims cfg"
    with R cfg have RB: "restartBrowser (browser page) page env (released page pool) = (r, pool')"
      by (simp add: releasePage_alt)
    have d: "distinct (browsers (released page pool))"
      and bh: "browser page < nextHandle (released page pool)"
      and bs: "\<forall>x\<in>set (browsers (released page pool)). x < nextHandle (released page pool)"
      using hb pg by (auto simp: handlesBelow_def released_def)
    note TD = restart_tornDown[OF RB d bh bs]
    show "tornDown (browser page) pool pool'"
      using TD(1,2,3) by (simp add: tornDown_def released_def)
    {
      assume ok: "launchOk env" "createPageOk env"
      from TD(4)[OF ok] show "r = None \<and> replacedBy (browser page) (nextHandle pool) pool pool'"
        by (auto simp: replacedBy_def released_def)
    }
  }
  {
    assume lt: "simCount pool (browser page) + 1 < maxSims cfg"
    with R cfg show "keptAlive (browser page) pool pool'"
      by (auto simp: releasePage_alt released_def keptAlive_def split: if_splits)
  }
qed

lemma init_idle:
  assumes "poolSize cfg = 1"
  shows "initialize (\<lambda>i. allOk) (newBrowserPool cfg) = (None, idlePool cfg 0)"
  unfolding initialize_def
  apply (subst initializeFrom.simps)
  apply (subst initializeFrom.simps)
  apply (simp add: assms newBrowserPool_def allOk_def idlePool_def
        launchBrowser_def createPage_def Let_def numeral_2_eq_2)
  done

lemma acquire_idle: "acquirePage (idlePool cfg k) = (Got (Page 0 1), leasedPool cfg k)"
  by (simp add: acquirePage_def idlePool_def leasedPool_def Let_def)

lemma release_leased:
  "int k + 1 < maxSims cfg \<Longrightarrow>
   releasePage (Page 0 1) allOk (leasedPool cfg k) = (None, idlePool cfg (Suc k))"
  by (simp add: releasePage_def leasedPool_def idlePool_def Let_def simCount_def allOk_def add.commute)

lemma reach_leased:
  assumes N: "poolSize cfg = 1"
  shows "int k < maxSims cfg \<Longrightarrow> reachable cfg (leasedPool cfg k, {Page 0 1})"
proof (induction k)
  case 0
  have "reachable cfg (idlePool cfg 0, {})" by (rule reach_init[OF init_idle[OF N]])
  from reach_acquire[OF this acquire_idle] show ?case .
next
  case (Suc k)
  then have r: "reachable cfg (leasedPool cfg k, {Page 0 1})" by simp
  have "reachable cfg (idlePool cfg (Suc k), {Page 0 1} - {Page 0 1})"
    by (rule reach_release[OF r _ release_leased]) (use Suc.prems in simp_all)
  then have "reachable cfg (idlePool cfg (Suc k), {})" by simp
  from reach_acquire[OF this acquire_idle] show ?case .
qed

lemma no_release_no_page:
  "availablePages pool = [] \<Longrightarrow> \<forall>op \<in> set ops. \<not> isRelease op \<Longrightarrow>
   \<forall>a \<in> set (fst (applyOps ops pool)). \<not> isGot a"
proof (induction ops arbitrary: pool)
  case Nil
  then show ?case by simp
next
  case (Cons op ops)
  obtain a pool1 where s: "applyOp op pool = (a, pool1)" by (cases "applyOp op pool")
  have "\<not> isGot a \<and> availablePages pool1 = []"
    using s Cons.prems
    by (cases op) (auto simp: acquirePage_def shutdownBegin_def shutdownFinish_def split: if_splits)
  moreover from this Cons.IH[of pool1] Cons.prems(2)
  have "\<forall>a \<in> set (fst (applyOps ops pool1)). \<not> isGot a" by simp
  ultimately show ?case using s by (simp add: split_def Let_def)
qed

text \<open>
  C4. Let the recycle threshold be \<open>T \<ge> 1\<close>. At every release in a reachable pool the
  lease counter of the page's browser goes up by one and does not pass \<open>T\<close>. The
  browser is torn down at the release on which the counter reaches \<open>T\<close>, and replaced by
  a freshly launched browser with counter 0 and a new page (when the launch and the page
  creation resolve); at a release on which the counter stays below \<open>T\<close> it is kept. In
  Scenario C (threshold 2, one browser, five jobs in sequence) the browser is closed after
  the 2nd and the 4th lease: browser 0, then its replacement, browser 2.
\<close>

theorem recycle_exactly_at_threshold:
  assumes "maxSimsPerBrowser cfg = Some T" and "1 \<le> T"
    and "reachable cfg (pool, leases)" and "page \<in> leases"
    and "releasePage page env pool = (r, pool')"
  shows "(simCount pool (browser page) + 1 \<le> T \<and>
          (simCount pool (browser page) + 1 = T \<longrightarrow>
             tornDown (browser page) pool pool' \<and>
             (launchOk env \<and> createPageOk env \<longrightarrow>
                replacedBy (browser page) (nextHandle pool) pool pool')) \<and>
          (simCount pool (browser page) + 1 < T \<longrightarrow> keptAlive (browser page) pool pool')) \<and>
         map (\<lambda>k. closedBrowsers ((leaseOnce allOk ^^ k)
                     (snd (initialize (\<lambda>i. allOk) (newBrowserPool scenarioC)))))
             [0, 1, 2, 3, 4, 5]
           = [[], [], [0], [0], [0, 2], [0, 2]]"
proof -
  have T: "maxSims cfg = T" using assms(1,2) by (simp add: maxSims_def)
  then have T1: "1 \<le> maxSims cfg" using assms(2) by simp
  note rr = release_recycle[OF assms(3) assms(4) T1 assms(5), unfolded T]
  have "map (\<lambda>k. closedBrowsers ((leaseOnce allOk ^^ k)
                     (snd (initialize (\<lambda>i. allOk) (newBrowserPool scenarioC)))))
             [0, 1, 2, 3, 4, 5]
           = [[], [], [0], [0], [0, 2], [0, 2]]"
    by code_simp
  with rr show ?thesis by blast
qed

theorem recycle_exactly_at_threshold_witness:
  "maxSimsPerBrowser scenarioC = Some 2 \<and>
   reachable scenarioC (leasedPool scenarioC 1, {Page 0 1}) \<and>
   simCount (leasedPool scenarioC 1) 0 + 1 = 2 \<and>
   tornDown 0 (leasedPool scenarioC 1) (snd (releasePage (Page 0 1) allOk (leasedPool scenarioC 1))) \<and>
   replacedBy 0 2 (leasedPool scenarioC 1) (snd (releasePage (Page 0 1) allOk (leasedPool scenarioC 1)))"
proof -
  have m: "maxSimsPerBrowser scenarioC = Some 2" by (simp add: scenarioC_def)
  have r: "reachable scenarioC (leasedPool scenarioC 1, {Page 0 1})"
    using reach_leased[of scenarioC 1] by (simp add: scenarioC_def maxSims_def)
  have c: "simCount (leasedPool scenarioC 1) 0 + 1 = 2" by (simp add: simCount_def leasedPool_def)
  have ok: "launchOk allOk \<and> createPageOk allOk" by (simp add: allOk_def)
  have n: "nextHandle (leasedPool scenarioC 1) = 2" by (simp add: leasedPool_def)
  from recycle_exactly_at_threshold[where env = allOk and page = "Page 0 1", OF m _ r _ surjective_pairing]
    c ok n m r
  show ?thesis by simp
qed

text \<open>
  C6. In every reachable state of a pool of \<open>poolSize = N\<close> at most \<open>N\<close> pages are
  busy. When \<open>N\<close> are busy, a test of \<open>acquirePage\<close> waits, or is rejected once the
  pool is shutting down; and no sequence of operations without a release lets an
  \<open>acquirePage\<close> return a page.
\<close>

theorem busy_at_most_poolSize:
  assumes "reachable cfg (pool, leases)"
  shows "finite (busyPages pool) \<and> card (busyPages pool) \<le> poolSize cfg \<and>
         (card (busyPages pool) = poolSize cfg \<longrightarrow>
            acquirePage pool =
              ((if isShuttingDown pool then Rejected PoolShuttingDown else Waiting), pool) \<and>
            (\<forall>ops. (\<forall>op \<in> set ops. \<not> isRelease op) \<longrightarrow>
                   (\<forall>a \<in> set (fst (applyOps ops pool)). \<not> isGot a)))"
proof -
  from reachable_inv[OF assms]
  have fin: "finite leases" and sub: "busyPages pool \<subseteq> leases"
    and le: "length (availablePages pool) + card leases \<le> poolSize cfg" by simp_all
  have fb: "finite (busyPages pool)" using fin sub by (rule rev_finite_subset)
  have cb: "card (busyPages pool) \<le> card leases" using fin sub by (rule card_mono)
  have full: "availablePages pool = []" if "card (busyPages pool) = poolSize cfg"
  proof -
    have "length (availablePages pool) = 0" using that cb le by arith
    then show ?thesis by simp
  qed
  show ?thesis
    using fb cb le full no_release_no_page[of pool]
    by (auto simp: acquirePage_def)
qed

theorem busy_at_most_poolSize_witness:
  "reachable scenarioC (leasedPool scenarioC 0, {Page 0 1}) \<and>
   card (busyPages (leasedPool scenarioC 0)) = poolSize scenarioC \<and>
   acquirePage (leasedPool scenarioC 0) = (Waiting, leasedPool scenarioC 0) \<and>
   fst (applyOps [DoAcquire, DoShutdownBegin, DoAcquire] (leasedPool scenarioC 0))
     = [Some Waiting, None, Some (Rejected PoolShuttingDown)]"
proof -
  have r: "reachable scenarioC (leasedPool scenarioC 0, {Page 0 1})"
    using reach_leased[of scenarioC 0] by (simp add: scenarioC_def maxSims_def)
  have c: "card (busyPages (leasedPool scenarioC 0)) = poolSize scenarioC"
    by (simp add: leasedPool_def scenarioC_def)
  have s: "\<not> isShuttingDown (leasedPool scenarioC 0)" by (simp add: leasedPool_def)
  have e: "fst (applyOps [DoAcquire, DoShutdownBegin, DoAcquire] (leasedPool scenarioC 0))
     = [Some Waiting, None, Some (Rejected PoolShuttingDown)]"
    by (simp add: acquirePage_def shutdownBegin_def leasedPool_def)
  from busy_at_most_poolSize[OF r] c s e r show ?thesis by simp
qed

text \<open>
  C9. With \<open>maxSimsPerBrowser\<close> unset or 0 the threshold is 50: a browser is restarted at
  the release on which its lease counter reaches 50, and kept at every release before.
\<close>

theorem default_recycle_threshold:
  assumes "maxSimsPerBrowser cfg = None \<or> maxSimsPerBrowser cfg = Some 0"
    and "reachable cfg (pool, leases)" and "page \<in> leases"
    and "releasePage page env pool = (r, pool')"
  shows "maxSims cfg = 50 \<and>
         simCount pool (browser page) + 1 \<le> 50 \<and>
         (simCount pool (browser page) + 1 = 50 \<longrightarrow>
            tornDown (browser page) pool pool' \<and>
            (launchOk env \<and> createPageOk env \<longrightarrow>
               replacedBy (browser page) (nextHandle pool) pool pool')) \<and>
         (simCount pool (browser page) + 1 < 50 \<longrightarrow> keptAlive (browser page) pool pool')"
proof -
  have T: "maxSims cfg = 50" using assms(1) by (auto simp: maxSims_def)
  then have T1: "1 \<le> maxSims cfg" by simp
  note rr = release_recycle[OF assms(2) assms(3) T1 assms(4), unfolded T]
  with T show ?thesis by blast
qed

theorem default_recycle_threshold_witness:
  "maxSimsPerBrowser defaultThreshold = None \<and>
   reachable defaultThreshold (leasedPool defaultThreshold 49, {Page 0 1}) \<and>
   simCount (leasedPool defaultThreshold 49) 0 + 1 = 50 \<and>
   tornDown 0 (leasedPool defaultThreshold 49)
     (snd (releasePage (Page 0 1) allOk (leasedPool defaultThreshold 49))) \<and>
   reachable defaultThreshold (leasedPool defaultThreshold 48, {Page 0 1}) \<and>
   keptAlive 0 (leasedPool defaultThreshold 48)
     (snd (releasePage (Page 0 1) allOk (leasedPool defaultThreshold 48)))"
proof -
  have m: "maxSimsPerBrowser defaultThreshold = None" by (simp add: defaultThreshold_def)
  have r: "reachable defaultThreshold (leasedPool defaultThreshold 49, {Page 0 1})"
    using reach_leased[of defaultThreshold 49] by (simp add: defaultThreshold_def maxSims_def)
  have r': "reachable defaultThreshold (leasedPool defaultThreshold 48, {Page 0 1})"
    using reach_leased[of defaultThreshold 48] by (simp add: defaultThreshold_def maxSims_def)
  have c: "simCount (leasedPool defaultThreshold 49) 0 + 1 = 50" by (simp add: simCount_def leasedPool_def)
  have c': "simCount (leasedPool defaultThreshold 48) 0 + 1 < 50" by (simp add: simCount_def leasedPool_def)
  from default_recycle_threshold[where env = allOk and page = "Page 0 1", OF disjI1[OF m] r _ surjective_pairing]
       default_recycle_threshold[where env = allOk and page = "Page 0 1", OF disjI1[OF m] r' _ surjective_pairing]
       c c' m r r'
  show ?thesis by simp
qed

section \<open>Properties of the Scheduler\<close>

lemma andThen_Inr:
  "andThen m f w = (Inr b, w') \<longleftrightarrow> (\<exists>a w1. m w = (Inr a, w1) \<and> f a w1 = (Inr b, w'))"
  by (auto simp: andThen_def split: prod.splits sum.splits)

lemma collectMetadata_id:
  "collectMetadata R cfg anns w = (Inr m, w') \<Longrightarrow>
   metaId m = simId cfg \<and> metaPreset m = preset cfg \<and> frameAnnotations m = anns \<and>
   metaInterventions m = (case interventions cfg of None \<Rightarrow> [] | Some ivs \<Rightarrow> ivs)"
  by (auto simp: collectMetadata_def andThen_Inr resolve_def throw_def split: if_splits)

lemma run_meta:
  assumes "run R P html cfg w = (Inr m, w')"
  shows "metaId m = simId cfg \<and> metaPreset m = preset cfg"
proof -
  from assms obtain anns w1 m1 w2 where "collectMetadata R cfg anns w1 = (Inr m1, w2)" "m = m1"
    unfolding run_def Let_def andThen_Inr resolve_def by auto
  then show ?thesis using collectMetadata_id by blast
qed

lemma errorDocs_append: "errorDocs (xs @ ys) = errorDocs xs @ errorDocs ys"
  by (induction xs rule: errorDocs.induct) auto

lemma attemptBody_shape:
  "calls (snd (attemptBody R P env cfg orch)) =
     calls orch @ (case acquireResult env of
                     Inl e \<Rightarrow> []
                   | Inr page \<Rightarrow> [Acquired page, RunnerRun page (simId cfg), Released page])"
  by (simp add: attemptBody_def logCalls_def updateJob_def Let_def split: sum.splits option.splits)

lemma attemptBody_frame:
  "attemptBody R P env cfg orch = (res, orch') \<Longrightarrow>
   poolHtmlPath orch' = poolHtmlPath orch \<and> maxRetries orch' = maxRetries orch \<and>
   failedCount orch' = failedCount orch \<and>
   (\<forall>i. map_option retryCount (jobs orch' i) = map_option retryCount (jobs orch i)) \<and>
   (resolved res \<longleftrightarrow> attemptReturns R P (poolHtmlPath orch) cfg env)"
  by (auto simp: attemptBody_def logCalls_def updateJob_def Let_def attemptReturns_def attemptSucceeds_def resolved_def
                 option.map_comp comp_def
           split: sum.splits option.splits)

lemma attemptBody_runs:
  "length (filter isRunnerRun (case acquireResult env of
                     Inl e \<Rightarrow> []
                   | Inr page \<Rightarrow> [Acquired page, RunnerRun page i, Released page])) \<le> 1"
  "errorDocs (case acquireResult env of
                     Inl e \<Rightarrow> []
                   | Inr page \<Rightarrow> [Acquired page, RunnerRun page i, Released page]) = []"
  by (auto simp: isRunnerRun_def split: sum.splits)

lemma run_meta_fst:
  "fst (run R P html cfg w) = Inr m \<Longrightarrow> metaId m = simId cfg \<and> metaPreset m = preset cfg"
  by (cases "run R P html cfg w") (auto dest: run_meta)

lemma attemptBody_meta:
  "attemptBody R P env cfg orch = (Inr m, orch') \<Longrightarrow> metaId m = simId cfg \<and> metaPreset m = preset cfg"
  by (auto simp: attemptBody_def Let_def split: sum.splits option.splits dest: run_meta_fst)

lemma retryLoop_done:
  "retries < attempt \<Longrightarrow> retryLoop R P env cfg retries attempt orch = (None, orch)"
  by (simp add: retryLoop.simps[of R P env cfg retries attempt orch])

lemma retryLoop_success:
  "attempt \<le> retries \<Longrightarrow> attemptBody R P (attempts env attempt) cfg orch = (Inr m, o1) \<Longrightarrow>
   retryLoop R P env cfg retries attempt orch = (Some m, o1)"
  by (subst retryLoop.simps) simp

lemma retryLoop_fail_more:
  "attempt < retries \<Longrightarrow> attemptBody R P (attempts env attempt) cfg orch = (Inl e, o1) \<Longrightarrow>
   retryLoop R P env cfg retries attempt orch =
   retryLoop R P env cfg retries (Suc attempt)
     (logCalls [Slept (1000 * (attempt + 1))]
        (updateJob (simId cfg) (\<lambda>job. job\<lparr>retryCount := retryCount job + 1, jobError := Some e\<rparr>) o1))"
  by (subst retryLoop.simps) (simp add: Let_def)

lemma retryLoop_fail_last:
  "attemptBody R P (attempts env retries) cfg orch = (Inl e, o1) \<Longrightarrow>
   retryLoop R P env cfg retries retries orch =
   (None, saveErrorInfo P env cfg
      ((updateJob (simId cfg) (\<lambda>job. job\<lparr>status := Failed\<rparr>)
          (updateJob (simId cfg) (\<lambda>job. job\<lparr>retryCount := retryCount job + 1, jobError := Some e\<rparr>) o1))
       \<lparr>failedCount := failedCount
          (updateJob (simId cfg) (\<lambda>job. job\<lparr>status := Failed\<rparr>)
          (updateJob (simId cfg) (\<lambda>job. job\<lparr>retryCount := retryCount job + 1, jobError := Some e\<rparr>) o1)) + 1\<rparr>))"
  by (subst retryLoop.simps) (simp add: Let_def retryLoop_done)

lemma retryLoop_spec:
  assumes "retryLoop R P env cfg retries attempt orch = (res, orch')"
    and "jobs orch (simId cfg) = Some job"
  shows "\<exists>new. retryPost R P env cfg retries attempt orch job res orch' new"
  using assms
proof (induction d \<equiv> "Suc retries - attempt" arbitrary: attempt orch job)
  case 0
  then have "\<not> attempt \<le> retries" by simp
  with "0.prems" show ?case by (simp add: retryLoop.simps[of R P env cfg retries attempt orch] retryPost_def)
next
  case (Suc d)
  then have le: "attempt \<le> retries" by simp
  obtain r o1 where AB: "attemptBody R P (attempts env attempt) cfg orch = (r, o1)"
    by (cases "attemptBody R P (attempts env attempt) cfg orch")
  note F = attemptBody_frame[OF AB]
  define ac where "ac = (case acquireResult (attempts env attempt) of
                     Inl e \<Rightarrow> []
                   | Inr page \<Rightarrow> [Acquired page, RunnerRun page (simId cfg), Released page])"
  have C1: "calls o1 = calls orch @ ac"
    using attemptBody_shape[of R P "attempts env attempt" cfg orch] AB by (simp add: ac_def)
  have ac1: "length (filter isRunnerRun ac) \<le> 1" and ac2: "errorDocs ac = []"
    unfolding ac_def by (rule attemptBody_runs)+
  show ?case
  proof (cases r)
    case (Inr m)
    with AB Suc.prems(1) le have res: "res = Some m" "orch' = o1"
      by (simp_all add: retryLoop.simps[of R P env cfg retries attempt orch])
    have su: "attemptReturns R P (poolHtmlPath orch) cfg (attempts env attempt)"
      using F Inr by (simp add: resolved_def)
    have mm: "metaId m = simId cfg \<and> metaPreset m = preset cfg"
      using attemptBody_meta AB Inr by blast
    have r1: "length (filter isRunnerRun ac) \<le> Suc retries - attempt" using ac1 le by simp
    show ?thesis
      apply (rule exI[of _ ac])
      unfolding retryPost_def
      apply (intro conjI)
      subgoal using res C1 by simp
      subgoal by (rule r1)
      subgoal using res su le by auto
      subgoal using res mm by simp
      subgoal using ac2 by simp
      subgoal using res by simp
      subgoal using res by simp
      subgoal using res F by simp
      done
  next
    case (Inl e)
    have nsu: "\<not> attemptReturns R P (poolHtmlPath orch) cfg (attempts env attempt)"
      using F Inl by (simp add: resolved_def)
    define o2 where "o2 = updateJob (simId cfg)
                            (\<lambda>job. job\<lparr>retryCount := retryCount job + 1, jobError := Some e\<rparr>) o1"
    have j1: "map_option retryCount (jobs o1 (simId cfg)) = Some (retryCount job)"
      using F Suc.prems(2) by simp
    then obtain job1 where job1: "jobs o1 (simId cfg) = Some job1" "retryCount job1 = retryCount job"
      by auto
    define job2 where "job2 = job1\<lparr>retryCount := retryCount job1 + 1, jobError := Some e\<rparr>"
    have j2: "jobs o2 (simId cfg) = Some job2"
      by (simp add: o2_def updateJob_def job1 job2_def)
    have o2c: "calls o2 = calls o1" "poolHtmlPath o2 = poolHtmlPath orch"
      using F by (simp_all add: o2_def updateJob_def)
    show ?thesis
    proof (cases "attempt < retries")
      case True
      define o3 where "o3 = logCalls [Slept (1000 * (attempt + 1))] o2"
      from AB Inl Suc.prems(1) le True
      have R: "retryLoop R P env cfg retries (Suc attempt) o3 = (res, orch')"
        by (simp add: retryLoop.simps[of R P env cfg retries attempt orch] o2_def o3_def Let_def)
      have j3: "jobs o3 (simId cfg) = Some job2" by (simp add: o3_def logCalls_def j2)
      have d: "d = Suc retries - Suc attempt" using Suc.hyps(2) by simp
      from Suc.hyps(1)[OF d R j3] obtain new where N0:
        "retryPost R P env cfg retries (Suc attempt) o3 job2 res orch' new" by blast
      note N = N0[unfolded retryPost_def, THEN conjunct1]
        N0[unfolded retryPost_def, THEN conjunct2, THEN conjunct1]
        N0[unfolded retryPost_def, THEN conjunct2, THEN conjunct2, THEN conjunct1]
        N0[unfolded retryPost_def, THEN conjunct2, THEN conjunct2, THEN conjunct2, THEN conjunct1]
        N0[unfolded retryPost_def, THEN conjunct2, THEN conjunct2, THEN conjunct2, THEN conjunct2, THEN conjunct1]
        N0[unfolded retryPost_def, THEN conjunct2, THEN conjunct2, THEN conjunct2, THEN conjunct2, THEN conjunct2, THEN conjunct1]
        N0[unfolded retryPost_def, THEN conjunct2, THEN conjunct2, THEN conjunct2, THEN conjunct2, THEN conjunct2, THEN conjunct2, THEN conjunct2]
      have h3: "poolHtmlPath o3 = poolHtmlPath orch" by (simp add: o3_def logCalls_def o2c)
      have c3: "calls o3 = calls orch @ ac @ [Slept (1000 * (attempt + 1))]"
        by (simp add: o3_def logCalls_def o2c C1)
      have rc: "retryCount job2 + (Suc retries - Suc attempt) = retryCount job + (Suc retries - attempt)"
        using True job1 by (simp add: job2_def)
      have ex: "(\<exists>k. attempt \<le> k \<and> k \<le> retries \<and> attemptReturns R P (poolHtmlPath orch) cfg (attempts env k))
             \<longleftrightarrow> (\<exists>k. Suc attempt \<le> k \<and> k \<le> retries \<and> attemptReturns R P (poolHtmlPath orch) cfg (attempts env k))"
      proof
        assume "\<exists>k. attempt \<le> k \<and> k \<le> retries \<and> attemptReturns R P (poolHtmlPath orch) cfg (attempts env k)"
        then obtain k where k: "attempt \<le> k" "k \<le> retries"
          "attemptReturns R P (poolHtmlPath orch) cfg (attempts env k)" by blast
        with nsu have "k \<noteq> attempt" by blast
        with k have "Suc attempt \<le> k" by simp
        with k show "\<exists>k. Suc attempt \<le> k \<and> k \<le> retries \<and> attemptReturns R P (poolHtmlPath orch) cfg (attempts env k)"
          by blast
      next
        assume "\<exists>k. Suc attempt \<le> k \<and> k \<le> retries \<and> attemptReturns R P (poolHtmlPath orch) cfg (attempts env k)"
        then show "\<exists>k. attempt \<le> k \<and> k \<le> retries \<and> attemptReturns R P (poolHtmlPath orch) cfg (attempts env k)"
          using Suc_leD by blast
      qed
      have rn: "length (filter isRunnerRun (ac @ [Slept (1000 * (attempt + 1))] @ new)) \<le> Suc retries - attempt"
        using N(2) ac1 True by (simp add: isRunnerRun_def)
      have ed: "errorDocs (ac @ [Slept (1000 * (attempt + 1))] @ new) = errorDocs new"
        using ac2 by (simp add: errorDocs_append)
      have cc: "calls orch' = calls orch @ ac @ [Slept (1000 * (attempt + 1))] @ new"
        using N(1) c3 by simp
      have SL: "Suc attempt \<le> retries" using True by simp
      show ?thesis
        apply (rule exI[of _ "ac @ [Slept (1000 * (attempt + 1))] @ new"])
        unfolding retryPost_def
        apply (intro conjI)
        subgoal by (rule cc)
        subgoal by (rule rn)
        subgoal using N(3) ex h3 by simp
        subgoal by (rule N(4))
        subgoal using N(5) ed by simp
        subgoal unfolding ed using N(6)[unfolded rc] SL by blast
        subgoal using le by simp
        subgoal using N(7) h3 by simp
        done
    next
      case False
      then have eq: "attempt = retries" using le by simp
      define o3 where "o3 = (updateJob (simId cfg) (\<lambda>job. job\<lparr>status := Failed\<rparr>) o2)
                               \<lparr>failedCount := failedCount (updateJob (simId cfg) (\<lambda>job. job\<lparr>status := Failed\<rparr>) o2) + 1\<rparr>"
      from AB Inl Suc.prems(1) le False
      have R: "retryLoop R P env cfg retries (Suc attempt) (saveErrorInfo P env cfg o3) = (res, orch')"
        by (simp add: retryLoop.simps[of R P env cfg retries attempt orch] o2_def o3_def Let_def)
      then have res: "res = None" "orch' = saveErrorInfo P env cfg o3"
        using eq by (simp_all add: retryLoop_done)
      have j3: "jobs o3 (simId cfg) = Some (job2\<lparr>status := Failed\<rparr>)"
        by (simp add: o3_def updateJob_def j2)
      have c3: "calls o3 = calls orch @ ac" "poolHtmlPath o3 = poolHtmlPath orch"
        by (simp_all add: o3_def updateJob_def o2c C1)
      define w where "w = (if \<not> errorMkdirOk env then []
          else if \<not> errorWriteOk env then [FsMkdir (outputDir cfg)]
          else [FsMkdir (outputDir cfg),
                         FsWriteFile (join P (outputDir cfg) ''error.json'')
                           (ErrorJson \<lparr> errorId = simId cfg, errorDetail = Some e,
                                        errorRetryCount = retryCount job + 1 \<rparr>)])"
      have sv: "calls orch' = calls orch @ ac @ w" "poolHtmlPath orch' = poolHtmlPath orch"
        using res j3 c3 job1 by (auto simp: saveErrorInfo_def logCalls_def w_def job2_def)
      have ed: "errorDocs (ac @ w) = (if errorMkdirOk env \<and> errorWriteOk env
                  then [errorDocOf P cfg e (retryCount job + (Suc retries - attempt))] else [])"
        using ac2 eq by (simp add: errorDocs_append w_def errorDocOf_def)
      have rr: "length (filter isRunnerRun (ac @ w)) \<le> Suc retries - attempt"
        using ac1 eq by (simp add: w_def isRunnerRun_def)
      have nex: "\<not> (\<exists>k. attempt \<le> k \<and> k \<le> retries \<and> attemptReturns R P (poolHtmlPath orch) cfg (attempts env k))"
        using nsu eq by auto
      show ?thesis
        apply (rule exI[of _ "ac @ w"])
        unfolding retryPost_def
        apply (intro conjI)
        subgoal by (rule sv(1))
        subgoal by (rule rr)
        subgoal using nex res by simp
        subgoal using res by simp
        subgoal using res by simp
        subgoal using ed by blast
        subgoal using le by simp
        subgoal by (rule sv(2))
        done
    qed
  qed
qed

lemma indexDocs_append: "indexDocs (xs @ ys) = indexDocs xs @ indexDocs ys"
  by (induction xs rule: indexDocs.induct) auto

lemma orchFrame_refl: "orchFrame orch orch"
  by (simp add: orchFrame_def)

lemma orchFrame_trans: "orchFrame a b \<Longrightarrow> orchFrame b c \<Longrightarrow> orchFrame a c"
  by (auto simp: orchFrame_def indexDocs_append)

lemma updateJob_frame: "orchFrame orch (updateJob i f orch)"
  by (auto simp: orchFrame_def updateJob_def dom_def)

lemma logCalls_frame: "indexDocs cs = [] \<Longrightarrow> orchFrame orch (logCalls cs orch)"
  by (auto simp: orchFrame_def logCalls_def)

lemma counters_frame:
  "orchFrame orch (orch\<lparr>failedCount := n\<rparr>)" "orchFrame orch (orch\<lparr>completedCount := n\<rparr>)"
  by (auto simp: orchFrame_def)

lemma saveErrorInfo_frame: "orchFrame orch (saveErrorInfo P env cfg orch)"
  by (auto simp: saveErrorInfo_def orchFrame_refl intro!: logCalls_frame split: option.splits)

lemma attemptBody_orchFrame: "orchFrame orch (snd (attemptBody R P env cfg orch))"
  unfolding attemptBody_def Let_def
  by (auto split: sum.splits option.splits
      intro!: orchFrame_refl orchFrame_trans[OF logCalls_frame logCalls_frame]
              orchFrame_trans[OF logCalls_frame
                 orchFrame_trans[OF updateJob_frame orchFrame_trans[OF counters_frame(2) logCalls_frame]]])

lemma retryLoop_frame: "orchFrame orch (snd (retryLoop R P env cfg retries attempt orch))"
proof (induction d \<equiv> "Suc retries - attempt" arbitrary: attempt orch)
  case 0
  then show ?case by (simp add: retryLoop_done orchFrame_refl)
next
  case (Suc d)
  then have le: "attempt \<le> retries" by simp
  obtain r o1 where AB: "attemptBody R P (attempts env attempt) cfg orch = (r, o1)"
    by (cases "attemptBody R P (attempts env attempt) cfg orch")
  have f1: "orchFrame orch o1" using attemptBody_orchFrame[of orch R P "attempts env attempt" cfg] AB by simp
  show ?case
  proof (cases r)
    case (Inr m)
    with AB le f1 show ?thesis by (simp add: retryLoop.simps[of R P env cfg retries attempt orch])
  next
    case (Inl e)
    define o2 where "o2 = updateJob (simId cfg)
                            (\<lambda>job. job\<lparr>retryCount := retryCount job + 1, jobError := Some e\<rparr>) o1"
    have f2: "orchFrame orch o2" unfolding o2_def by (rule orchFrame_trans[OF f1 updateJob_frame])
    show ?thesis
    proof (cases "attempt < retries")
      case True
      define o3 where "o3 = logCalls [Slept (1000 * (attempt + 1))] o2"
      have f3: "orchFrame orch o3" unfolding o3_def
        by (rule orchFrame_trans[OF f2 logCalls_frame]) simp
      from AB Inl le True
      have R: "retryLoop R P env cfg retries attempt orch = retryLoop R P env cfg retries (Suc attempt) o3"
        by (simp add: retryLoop.simps[of R P env cfg retries attempt orch] o2_def o3_def Let_def)
      have d: "d = Suc retries - Suc attempt" using Suc.hyps(2) by simp
      from Suc.hyps(1)[OF d, of o3] f3 R show ?thesis using orchFrame_trans by simp
    next
      case False
      define o3 where "o3 = (updateJob (simId cfg) (\<lambda>job. job\<lparr>status := Failed\<rparr>) o2)
                               \<lparr>failedCount := failedCount (updateJob (simId cfg) (\<lambda>job. job\<lparr>status := Failed\<rparr>) o2) + 1\<rparr>"
      have f3: "orchFrame orch (saveErrorInfo P env cfg o3)" unfolding o3_def
        by (rule orchFrame_trans[OF f2 orchFrame_trans[OF updateJob_frame
              orchFrame_trans[OF counters_frame(1) saveErrorInfo_frame]]])
      have eq: "attempt = retries" using False le by simp
      have R: "retryLoop R P env cfg retries attempt orch = (None, saveErrorInfo P env cfg o3)"
        using retryLoop_fail_last[of R P env retries cfg orch e o1] AB Inl eq
        by (simp add: o2_def o3_def)
      with f3 show ?thesis by simp
    qed
  qed
qed

lemma runWithRetry_frame: "orchFrame orch (snd (runWithRetry R P env cfg orch))"
proof (cases "jobs orch (simId cfg)")
  case None
  then show ?thesis by (simp add: runWithRetry_def orchFrame_refl)
next
  case (Some job)
  define o1 where "o1 = updateJob (simId cfg) (\<lambda>job. job\<lparr>status := Running\<rparr>) orch"
  have "snd (runWithRetry R P env cfg orch) = snd (retryLoop R P env cfg (maxRetries o1) 0 o1)"
    using Some by (simp add: runWithRetry_def o1_def Let_def split: prod.splits)
  moreover have "orchFrame orch o1" unfolding o1_def by (rule updateJob_frame)
  ultimately show ?thesis using retryLoop_frame[of o1 R P env cfg "maxRetries o1" 0] orchFrame_trans by simp
qed

lemma runWithRetry_spec:
  assumes "runWithRetry R P env cfg orch = (r, orch')" and "jobs orch (simId cfg) = Some job"
  shows "\<exists>res new. r = Inr res \<and> retryPost R P env cfg (maxRetries orch) 0 orch job res orch' new"
proof -
  define o1 where "o1 = updateJob (simId cfg) (\<lambda>job. job\<lparr>status := Running\<rparr>) orch"
  obtain res where R: "retryLoop R P env cfg (maxRetries o1) 0 o1 = (res, orch')" and r: "r = Inr res"
    using assms by (auto simp: runWithRetry_def o1_def Let_def split: prod.splits)
  have j1: "jobs o1 (simId cfg) = Some (job\<lparr>status := Running\<rparr>)"
    using assms(2) by (simp add: o1_def updateJob_def)
  from retryLoop_spec[OF R j1] obtain new where
    "retryPost R P env cfg (maxRetries o1) 0 o1 (job\<lparr>status := Running\<rparr>) res orch' new" by blast
  moreover have "retryPost R P env cfg (maxRetries o1) 0 o1 (job\<lparr>status := Running\<rparr>) res orch' new
        = retryPost R P env cfg (maxRetries orch) 0 orch job res orch' new"
    by (simp add: retryPost_def o1_def updateJob_def)
  ultimately have "retryPost R P env cfg (maxRetries orch) 0 orch job res orch' new" by simp
  with r show ?thesis by blast
qed

lemma attemptReturns_succeeds:
  "attemptReturns R P html cfg env \<Longrightarrow> attemptSucceeds R P html cfg env"
  by (simp add: attemptReturns_def)

lemma jobFails_not_returns:
  "jobFails R P html retries cfg env \<Longrightarrow> \<not> jobReturns R P html retries cfg env"
  by (auto simp: jobFails_def jobReturns_def attemptReturns_def)

lemma clean_not_returns_fails:
  "releasesCleanly R P html retries cfg env \<Longrightarrow>
   \<not> jobReturns R P html retries cfg env \<longleftrightarrow> jobFails R P html retries cfg env"
  by (auto simp: jobFails_def jobReturns_def attemptReturns_def releasesCleanly_def)

text \<open>
  C1, as amended. Take a job whose status object is the fresh one of \<open>runBatch\<close>
  (\<open>retryCount = 0\<close>). \<open>runWithRetry\<close> calls \<open>runner.run\<close> at most
  \<open>maxRetries + 1\<close> times. If some attempt succeeds and the release of its page
  resolves, no \<open>error.json\<close> is written. If every attempt fails, one write of
  \<open>error.json\<close> is tried, with \<open>retryCount = maxRetries + 1\<close>: the document is written
  when \<open>mkdir\<close> and \<open>writeFile\<close> resolve, and none is written when one of them rejects,
  which the source ignores. Nothing is said of a job whose runs resolve while every
  release of the page rejects.
\<close>

theorem retry_budget_and_error_document:
  assumes "jobs orch (simId cfg) = Some job" and "retryCount job = 0"
    and "runWithRetry R P env cfg orch = (r, orch')"
  shows "\<exists>new. calls orch' = calls orch @ new \<and>
           length (filter isRunnerRun new) \<le> maxRetries orch + 1 \<and>
           (jobReturns R P (poolHtmlPath orch) (maxRetries orch) cfg env \<longrightarrow> errorDocs new = []) \<and>
           (jobFails R P (poolHtmlPath orch) (maxRetries orch) cfg env \<longrightarrow>
              (\<exists>e. errorDocs new =
                 (if errorMkdirOk env \<and> errorWriteOk env
                  then [errorDocOf P cfg e (maxRetries orch + 1)] else [])))"
proof -
  from runWithRetry_spec[OF assms(3) assms(1)] obtain res new where
    p: "retryPost R P env cfg (maxRetries orch) 0 orch job res orch' new" by blast
  note q = p[unfolded retryPost_def]
  have q1: "calls orch' = calls orch @ new" using q by (elim conjE)
  have q2: "length (filter isRunnerRun new) \<le> maxRetries orch + 1" using q by (elim conjE) simp
  have q3: "(res \<noteq> None) \<longleftrightarrow> (\<exists>k. 0 \<le> k \<and> k \<le> maxRetries orch \<and>
                   attemptReturns R P (poolHtmlPath orch) cfg (attempts env k))"
    using q by (elim conjE)
  have q5: "res \<noteq> None \<longrightarrow> errorDocs new = []" using q by (elim conjE)
  have q6: "res = None \<longrightarrow> 0 \<le> maxRetries orch \<longrightarrow>
              (\<exists>e. errorDocs new =
                 (if errorMkdirOk env \<and> errorWriteOk env
                  then [errorDocOf P cfg e (retryCount job + (Suc (maxRetries orch) - 0))] else []))"
    using q by (elim conjE)
  have js: "jobReturns R P (poolHtmlPath orch) (maxRetries orch) cfg env \<longleftrightarrow> res \<noteq> None"
    unfolding q3 by (simp add: jobReturns_def Bex_def)
  have jf: "jobFails R P (poolHtmlPath orch) (maxRetries orch) cfg env \<Longrightarrow> res = None"
    using jobFails_not_returns js by blast
  have n: "retryCount job + (Suc (maxRetries orch) - 0) = maxRetries orch + 1"
    using assms(2) by simp
  show ?thesis
    apply (rule exI[of _ new])
    apply (intro conjI)
    subgoal by (rule q1)
    subgoal by (rule q2)
    subgoal unfolding js by (rule q5)
    subgoal using q6[unfolded n] jf by simp
    done
qed

lemma failingAttempt_fails:
  "\<not> attemptSucceeds sampleRenderer samplePaths ''index.html'' sampleConfig failingAttempt"
  by code_simp

lemma passingAttempt_passes:
  "attemptSucceeds sampleRenderer samplePaths ''index.html'' sampleConfig passingAttempt"
  by code_simp

theorem retry_budget_and_error_document_witness:
  "jobs (schedulerFor 2 sampleConfig) (simId sampleConfig) = Some (initJob sampleConfig) \<and>
   retryCount (initJob sampleConfig) = 0 \<and>
   jobFails sampleRenderer samplePaths ''index.html'' 2 sampleConfig doomedJob \<and>
   length (filter isRunnerRun
     (calls (snd (runWithRetry sampleRenderer samplePaths doomedJob sampleConfig
                    (schedulerFor 2 sampleConfig))))) \<le> 3 \<and>
   (\<exists>e. errorDocs
     (calls (snd (runWithRetry sampleRenderer samplePaths doomedJob sampleConfig
                    (schedulerFor 2 sampleConfig))))
     = [errorDocOf samplePaths sampleConfig e 3]) \<and>
   jobReturns sampleRenderer samplePaths ''index.html'' 2 sampleConfig healthyJob \<and>
   errorDocs
     (calls (snd (runWithRetry sampleRenderer samplePaths healthyJob sampleConfig
                    (schedulerFor 2 sampleConfig)))) = []"
proof -
  have h1: "jobs (schedulerFor 2 sampleConfig) (simId sampleConfig) = Some (initJob sampleConfig)"
    by (simp add: schedulerFor_def)
  have h2: "retryCount (initJob sampleConfig) = 0" by (simp add: initJob_def)
  have h3: "jobFails sampleRenderer samplePaths ''index.html'' 2 sampleConfig doomedJob"
    using failingAttempt_fails by (simp add: jobFails_def doomedJob_def)
  have h4: "jobReturns sampleRenderer samplePaths ''index.html'' 2 sampleConfig healthyJob"
    using passingAttempt_passes
    by (auto simp: jobReturns_def attemptReturns_def healthyJob_def passingAttempt_def)
  have c: "calls (schedulerFor 2 sampleConfig) = []" "maxRetries (schedulerFor 2 sampleConfig) = 2"
    "poolHtmlPath (schedulerFor 2 sampleConfig) = ''index.html''"
    "errorMkdirOk doomedJob" "errorWriteOk doomedJob"
    by (simp_all add: schedulerFor_def newOrchestrator_def doomedJob_def)
  from retry_budget_and_error_document[OF h1 h2 surjective_pairing,
        of sampleRenderer samplePaths doomedJob]
  have a: "length (filter isRunnerRun
     (calls (snd (runWithRetry sampleRenderer samplePaths doomedJob sampleConfig
                    (schedulerFor 2 sampleConfig))))) \<le> 3 \<and>
   (\<exists>e. errorDocs
     (calls (snd (runWithRetry sampleRenderer samplePaths doomedJob sampleConfig
                    (schedulerFor 2 sampleConfig))))
     = [errorDocOf samplePaths sampleConfig e 3])"
    using h3 c by auto
  from retry_budget_and_error_document[OF h1 h2 surjective_pairing,
        of sampleRenderer samplePaths healthyJob]
  have b: "errorDocs
     (calls (snd (runWithRetry sampleRenderer samplePaths healthyJob sampleConfig
                    (schedulerFor 2 sampleConfig)))) = []"
    using h4 c by auto
  show ?thesis using h1 h2 h3 h4 a b by blast
qed

text \<open>
  C1 as stated fails: with \<open>maxRetries = 0\<close> and an output directory that cannot be
  written, the only attempt fails and no \<open>error.json\<close> is written.
\<close>

theorem error_document_counterexample:
  "\<not> attemptSucceeds sampleRenderer samplePaths ''index.html'' sampleConfig
       (attempts readOnlyJob 0) \<and>
   errorDocs (calls (snd (runWithRetry sampleRenderer samplePaths readOnlyJob sampleConfig
                            (schedulerFor 0 sampleConfig)))) = []"
  by code_simp

text \<open>
  C5. One attempt of a job adds to the log: nothing, when \<open>acquirePage\<close> rejects (and the
  attempt fails with that error); otherwise the acquisition, the run and exactly one
  \<open>releasePage\<close> of the acquired page, whatever the run and the release answer.
\<close>

theorem release_once_per_acquire:
  "\<exists>new. calls (snd (attemptBody R P env cfg orch)) = calls orch @ new \<and>
     (case acquireResult env of
        Inr page \<Rightarrow> new = [Acquired page, RunnerRun page (simId cfg), Released page]
      | Inl e \<Rightarrow> new = [] \<and> fst (attemptBody R P env cfg orch) = Inl e)"
  using attemptBody_shape[of R P env cfg orch]
  by (auto simp: attemptBody_def split: sum.splits)
lemma saveErrorInfo_counts:
  "completedCount (saveErrorInfo P env cfg orch) = completedCount orch"
  "failedCount (saveErrorInfo P env cfg orch) = failedCount orch"
  by (simp_all add: saveErrorInfo_def logCalls_def split: option.splits)

lemma attemptBody_completed:
  "attemptBody R P env cfg orch = (res, orch') \<Longrightarrow>
   completedCount orch' =
     completedCount orch + (if attemptSucceeds R P (poolHtmlPath orch) cfg env then 1 else 0)"
  by (auto simp: attemptBody_def logCalls_def updateJob_def Let_def attemptSucceeds_def resolved_def
           split: sum.splits option.splits)

lemma retryLoop_counts:
  assumes "retryLoop R P env cfg retries attempt orch = (res, orch')"
  shows "failedCount orch' = failedCount orch + (if res = None \<and> attempt \<le> retries then 1 else 0) \<and>
         ((\<forall>k. attempt \<le> k \<and> k \<le> retries \<longrightarrow>
               attemptSucceeds R P (poolHtmlPath orch) cfg (attempts env k) \<longrightarrow>
               releaseResult (attempts env k) = None) \<longrightarrow>
          completedCount orch' = completedCount orch + (if res = None then 0 else 1))"
  using assms
proof (induction d \<equiv> "Suc retries - attempt" arbitrary: attempt orch)
  case 0
  then have "retries < attempt" by simp
  with "0.prems" show ?case by (simp add: retryLoop_done)
next
  case (Suc d)
  then have le: "attempt \<le> retries" by simp
  let ?clean = "\<lambda>a. \<forall>k. a \<le> k \<and> k \<le> retries \<longrightarrow>
               attemptSucceeds R P (poolHtmlPath orch) cfg (attempts env k) \<longrightarrow>
               releaseResult (attempts env k) = None"
  obtain r o1 where AB: "attemptBody R P (attempts env attempt) cfg orch = (r, o1)"
    by (cases "attemptBody R P (attempts env attempt) cfg orch")
  note F = attemptBody_frame[OF AB]
  note C = attemptBody_completed[OF AB]
  have f1: "failedCount o1 = failedCount orch" and h1: "poolHtmlPath o1 = poolHtmlPath orch"
    using F by simp_all
  show ?case
  proof (cases r)
    case (Inr m)
    with AB Suc.prems le have res: "res = Some m" "orch' = o1"
      by (simp_all add: retryLoop.simps[of R P env cfg retries attempt orch])
    have "attemptSucceeds R P (poolHtmlPath orch) cfg (attempts env attempt)"
      using F Inr by (simp add: resolved_def attemptReturns_def)
    with C have "completedCount o1 = completedCount orch + 1" by simp
    with res f1 show ?thesis by simp
  next
    case (Inl e)
    have nr: "\<not> attemptReturns R P (poolHtmlPath orch) cfg (attempts env attempt)"
      using F Inl by (simp add: resolved_def)
    have c1: "completedCount o1 = completedCount orch" if "?clean attempt"
    proof -
      have "\<not> attemptSucceeds R P (poolHtmlPath orch) cfg (attempts env attempt)"
        using that nr le unfolding attemptReturns_def by blast
      with C show ?thesis by simp
    qed
    define o2 where "o2 = updateJob (simId cfg)
                            (\<lambda>job. job\<lparr>retryCount := retryCount job + 1, jobError := Some e\<rparr>) o1"
    have o2: "failedCount o2 = failedCount orch" "completedCount o2 = completedCount o1"
      "poolHtmlPath o2 = poolHtmlPath orch"
      using f1 h1 by (simp_all add: o2_def updateJob_def)
    show ?thesis
    proof (cases "attempt < retries")
      case True
      define o3 where "o3 = logCalls [Slept (1000 * (attempt + 1))] o2"
      from AB Inl Suc.prems le True
      have R: "retryLoop R P env cfg retries (Suc attempt) o3 = (res, orch')"
        by (simp add: retryLoop.simps[of R P env cfg retries attempt orch] o2_def o3_def Let_def)
      have d: "d = Suc retries - Suc attempt" using Suc.hyps(2) by simp
      have o3: "failedCount o3 = failedCount orch" "completedCount o3 = completedCount o1"
        "poolHtmlPath o3 = poolHtmlPath orch"
        by (simp_all add: o3_def logCalls_def o2)
      note IH = Suc.hyps(1)[OF d R, unfolded o3]
      have a: "failedCount orch' = failedCount orch + (if res = None \<and> attempt \<le> retries then 1 else 0)"
        using IH True by simp
      have b: "completedCount orch' = completedCount orch + (if res = None then 0 else 1)"
        if cl: "?clean attempt"
      proof -
        have "?clean (Suc attempt)" using cl by simp
        with IH have "completedCount orch' = completedCount o1 + (if res = None then 0 else 1)"
          by blast
        with c1[OF cl] show ?thesis by simp
      qed
      from a b show ?thesis by blast
    next
      case False
      then have eq: "attempt = retries" using le by simp
      define o3 where "o3 = (updateJob (simId cfg) (\<lambda>job. job\<lparr>status := Failed\<rparr>) o2)
                               \<lparr>failedCount := failedCount (updateJob (simId cfg) (\<lambda>job. job\<lparr>status := Failed\<rparr>) o2) + 1\<rparr>"
      have R: "retryLoop R P env cfg retries attempt orch = (None, saveErrorInfo P env cfg o3)"
        using retryLoop_fail_last[of R P env retries cfg orch e o1] AB Inl eq
        by (simp add: o2_def o3_def)
      with Suc.prems have res: "res = None" "orch' = saveErrorInfo P env cfg o3" by simp_all
      have o3: "failedCount o3 = failedCount orch + 1" "completedCount o3 = completedCount o1"
        using o2 by (simp_all add: o3_def updateJob_def)
      have a: "failedCount orch' = failedCount orch + 1" "completedCount orch' = completedCount o1"
        using res o3 by (simp_all add: saveErrorInfo_counts)
      from a c1 res le show ?thesis by simp
    qed
  qed
qed

lemma runWithRetry_counts:
  assumes "runWithRetry R P env cfg orch = (r, orch')" and "simId cfg \<in> dom (jobs orch)"
  shows "\<exists>res. r = Inr res \<and>
           failedCount orch' = failedCount orch + (if res = None then 1 else 0) \<and>
           (releasesCleanly R P (poolHtmlPath orch) (maxRetries orch) cfg env \<longrightarrow>
              completedCount orch' = completedCount orch + (if res = None then 0 else 1))"
proof -
  define o1 where "o1 = updateJob (simId cfg) (\<lambda>job. job\<lparr>status := Running\<rparr>) orch"
  obtain res where R: "retryLoop R P env cfg (maxRetries o1) 0 o1 = (res, orch')" and r: "r = Inr res"
    using assms by (auto simp: runWithRetry_def o1_def Let_def split: prod.splits)
  have o1: "failedCount o1 = failedCount orch" "completedCount o1 = completedCount orch"
    "poolHtmlPath o1 = poolHtmlPath orch" "maxRetries o1 = maxRetries orch"
    by (simp_all add: o1_def updateJob_def)
  note c = retryLoop_counts[OF R, unfolded o1]
  have a: "failedCount orch' = failedCount orch + (if res = None then 1 else 0)"
    using c by simp
  have b: "completedCount orch' = completedCount orch + (if res = None then 0 else 1)"
    if "releasesCleanly R P (poolHtmlPath orch) (maxRetries orch) cfg env"
  proof -
    have "\<forall>k. 0 \<le> k \<and> k \<le> maxRetries orch \<longrightarrow>
               attemptSucceeds R P (poolHtmlPath orch) cfg (attempts env k) \<longrightarrow>
               releaseResult (attempts env k) = None"
      using that by (simp add: releasesCleanly_def)
    with c show ?thesis by blast
  qed
  from r a b show ?thesis by blast
qed

lemma runWithRetry_result:
  assumes "runWithRetry R P env cfg orch = (r, orch')" and "simId cfg \<in> dom (jobs orch)"
  shows "\<exists>res. r = Inr res \<and>
           (res \<noteq> None \<longleftrightarrow> jobReturns R P (poolHtmlPath orch) (maxRetries orch) cfg env) \<and>
           (\<forall>m. res = Some m \<longrightarrow> idAndPreset m = (simId cfg, preset cfg))"
proof -
  from assms(2) obtain job where j: "jobs orch (simId cfg) = Some job" by auto
  from runWithRetry_spec[OF assms(1) j] obtain res new where
    r: "r = Inr res" and p: "retryPost R P env cfg (maxRetries orch) 0 orch job res orch' new" by blast
  note q = p[unfolded retryPost_def]
  have q3: "(res \<noteq> None) \<longleftrightarrow> (\<exists>k. 0 \<le> k \<and> k \<le> maxRetries orch \<and>
                   attemptReturns R P (poolHtmlPath orch) cfg (attempts env k))"
    using q by (elim conjE)
  have q4: "\<forall>m. res = Some m \<longrightarrow> metaId m = simId cfg \<and> metaPreset m = preset cfg"
    using q by (elim conjE)
  have js: "jobReturns R P (poolHtmlPath orch) (maxRetries orch) cfg env \<longleftrightarrow> res \<noteq> None"
    unfolding q3 by (simp add: jobReturns_def Bex_def)
  show ?thesis using r js q4 by (simp add: idAndPreset_def)
qed

lemma orchFrameD:
  assumes "orchFrame orch orch'"
  shows "maxRetries orch' = maxRetries orch" "poolHtmlPath orch' = poolHtmlPath orch"
        "startTime orch' = startTime orch" "dom (jobs orch') = dom (jobs orch)"
        "concurrency orch' = concurrency orch"
  using assms by (simp_all add: orchFrame_def)

lemma nextToFinish_less: "0 < m \<Longrightarrow> nextToFinish c l m < m"
proof -
  assume "0 < m"
  then have "0 < min (max 1 l) m" by simp
  then have "c mod min (max 1 l) m < min (max 1 l) m" by (rule mod_less_divisor)
  then show ?thesis by (simp add: nextToFinish_def)
qed

lemma finishOrder_Nil: "finishOrder f l n [] = []"
  by (simp add: finishOrder.simps)

lemma finishOrder_step:
  "pending \<noteq> [] \<Longrightarrow>
   finishOrder f l n pending =
     pending ! nextToFinish (f n) l (length pending) #
     finishOrder f l (Suc n) (without (nextToFinish (f n) l (length pending)) pending)"
  by (subst finishOrder.simps) (simp add: Let_def)

lemma split_at: "k < length xs \<Longrightarrow> xs = take k xs @ xs ! k # drop (Suc k) xs"
  by (rule id_take_nth_drop)

lemma length_without: "k < length xs \<Longrightarrow> Suc (length (without k xs)) = length xs"
  by (simp add: without_def)

lemma set_without: "set (without k xs) \<subseteq> set xs"
  using set_take_subset[of k xs] set_drop_subset[of "Suc k" xs] by (auto simp: without_def)

lemma mset_without: "k < length xs \<Longrightarrow> add_mset (xs ! k) (mset (without k xs)) = mset xs"
proof -
  assume k: "k < length xs"
  have "mset xs = mset (take k xs @ xs ! k # drop (Suc k) xs)" using split_at[OF k] by simp
  then show ?thesis by (simp add: without_def)
qed

lemma filter_without:
  "k < length xs \<Longrightarrow>
   length (filter p xs) = (if p (xs ! k) then 1 else 0) + length (filter p (without k xs))"
proof -
  assume k: "k < length xs"
  have "filter p xs = filter p (take k xs @ xs ! k # drop (Suc k) xs)" using split_at[OF k] by simp
  then show ?thesis by (simp add: without_def)
qed

lemma mset_finishOrder: "mset (finishOrder f l n xs) = mset xs"
proof (induction "length xs" arbitrary: n xs)
  case 0
  then show ?case by (simp add: finishOrder_Nil)
next
  case (Suc m)
  then have ne: "xs \<noteq> []" by auto
  define k where "k = nextToFinish (f n) l (length xs)"
  have k: "k < length xs" unfolding k_def by (rule nextToFinish_less) (use ne in simp)
  have "m = length (without k xs)" using length_without[OF k] Suc.hyps(2) by simp
  from Suc.hyps(1)[OF this] have "mset (finishOrder f l (Suc n) (without k xs)) = mset (without k xs)" .
  then show ?case
    unfolding finishOrder_step[OF ne, of f l n] k_def[symmetric] using mset_without[OF k] by simp
qed
lemma runQueue_Nil: "runQueue R P env d n [] results orch = (Inr results, orch)"
  by (simp add: runQueue.simps)

lemma runQueue_step:
  "pending \<noteq> [] \<Longrightarrow>
   runQueue R P env d n pending results orch =
     (case runWithRetry R P
             (jobEnv env (fst (pending ! nextToFinish (finishes env n) (concurrency orch) (length pending))))
             (mergeWithDefaults
                (snd (pending ! nextToFinish (finishes env n) (concurrency orch) (length pending))) d)
             orch of
        (Inl e, orch') \<Rightarrow> (Inl e, orch')
      | (Inr None, orch') \<Rightarrow>
          runQueue R P env d (Suc n)
            (without (nextToFinish (finishes env n) (concurrency orch) (length pending)) pending)
            results orch'
      | (Inr (Some result), orch') \<Rightarrow>
          runQueue R P env d (Suc n)
            (without (nextToFinish (finishes env n) (concurrency orch) (length pending)) pending)
            (results @ [result]) orch')"
  by (subst runQueue.simps) (simp add: Let_def)

lemma runQueue_spec:
  assumes "runQueue R P env d n pending results orch = (Inr results', orch')"
    and "\<forall>t \<in> set pending. simId (mergeWithDefaults (snd t) d) \<in> dom (jobs orch)"
  shows "orchFrame orch orch' \<and>
         (\<exists>ms. results' = results @ ms \<and>
               map idAndPreset ms =
               map (\<lambda>c. (simId c, preset c))
                 (completedJobs R P env d (poolHtmlPath orch) (maxRetries orch)
                    (finishOrder (finishes env) (concurrency orch) n pending))) \<and>
         failedCount orch' = failedCount orch +
             length (filter (\<lambda>t. \<not> taskReturns R P env d (poolHtmlPath orch) (maxRetries orch) t) pending) \<and>
         (batchReleasesCleanly R P env d (poolHtmlPath orch) (maxRetries orch) pending \<longrightarrow>
            completedCount orch' = completedCount orch +
              length (filter (taskReturns R P env d (poolHtmlPath orch) (maxRetries orch)) pending))"
  using assms
proof (induction "length pending" arbitrary: n pending results orch)
  case 0
  then have "pending = []" by simp
  with "0.prems" show ?case
    by (simp add: runQueue_Nil finishOrder_Nil orchFrame_refl completedJobs_def)
next
  case (Suc len)
  then have ne: "pending \<noteq> []" by auto
  define k where "k = nextToFinish (finishes env n) (concurrency orch) (length pending)"
  have k: "k < length pending" unfolding k_def by (rule nextToFinish_less) (use ne in simp)
  define task where "task = pending ! k"
  define rest where "rest = without k pending"
  define fc where "fc = mergeWithDefaults (snd task) d"
  define html where "html = poolHtmlPath orch"
  define M where "M = maxRetries orch"
  have tin: "task \<in> set pending" unfolding task_def using k by simp
  have rsub: "set rest \<subseteq> set pending" unfolding rest_def by (rule set_without)
  have len: "len = length rest" using length_without[OF k] Suc.hyps(2) by (simp add: rest_def)
  obtain r o1 where RW: "runWithRetry R P (jobEnv env (fst task)) fc orch = (r, o1)"
    by (cases "runWithRetry R P (jobEnv env (fst task)) fc orch")
  have f1: "orchFrame orch o1" using runWithRetry_frame[of orch R P "jobEnv env (fst task)" fc] RW by simp
  have pres: "simId fc \<in> dom (jobs orch)" using Suc.prems(2) tin by (simp add: fc_def)
  from runWithRetry_result[OF RW pres] obtain res where
    r: "r = Inr res" and
    js: "res \<noteq> None \<longleftrightarrow> taskReturns R P env d html M task" and
    im: "\<forall>m. res = Some m \<longrightarrow> idAndPreset m = (simId fc, preset fc)"
    unfolding taskReturns_def fc_def html_def M_def by blast
  from runWithRetry_counts[OF RW pres] r have
    fcnt: "failedCount o1 = failedCount orch + (if res = None then 1 else 0)" and
    ccnt: "releasesCleanly R P html M fc (jobEnv env (fst task)) \<longrightarrow>
              completedCount o1 = completedCount orch + (if res = None then 0 else 1)"
    unfolding html_def M_def by auto
  have same: "poolHtmlPath o1 = html" "maxRetries o1 = M" "concurrency o1 = concurrency orch"
    using orchFrameD(1,2,5)[OF f1] by (simp_all add: html_def M_def)
  have dom1: "\<forall>t \<in> set rest. simId (mergeWithDefaults (snd t) d) \<in> dom (jobs o1)"
    using Suc.prems(2) rsub orchFrameD(4)[OF f1] by auto
  have fo: "finishOrder (finishes env) (concurrency orch) n pending =
            task # finishOrder (finishes env) (concurrency orch) (Suc n) rest"
    unfolding task_def rest_def k_def by (rule finishOrder_step[OF ne])
  have cj: "completedJobs R P env d html M (finishOrder (finishes env) (concurrency orch) n pending) =
            (if res \<noteq> None then [fc] else []) @
            completedJobs R P env d html M (finishOrder (finishes env) (concurrency orch) (Suc n) rest)"
    unfolding fo using js by (simp add: completedJobs_def fc_def)
  have fl: "length (filter p pending) = (if p task then 1 else 0) + length (filter p rest)" for p
    unfolding task_def rest_def by (rule filter_without[OF k])
  have cl: "batchReleasesCleanly R P env d html M rest \<and> releasesCleanly R P html M fc (jobEnv env (fst task))"
    if "batchReleasesCleanly R P env d html M pending"
    using that rsub tin unfolding batchReleasesCleanly_def fc_def by blast
  have Q0: "(case (r, o1) of
        (Inl e, orch') \<Rightarrow> (Inl e, orch')
      | (Inr None, orch') \<Rightarrow> runQueue R P env d (Suc n) rest results orch'
      | (Inr (Some result), orch') \<Rightarrow> runQueue R P env d (Suc n) rest (results @ [result]) orch')
      = (Inr results', orch')"
    using Suc.prems(1) unfolding runQueue_step[OF ne] k_def[symmetric] task_def[symmetric]
      rest_def[symmetric] fc_def[symmetric] RW .
  define results1 where "results1 = results @ (case res of None \<Rightarrow> [] | Some m \<Rightarrow> [m])"
  have Q: "runQueue R P env d (Suc n) rest results1 o1 = (Inr results', orch')"
    using Q0 r by (cases res) (simp_all add: results1_def)
  note IH = Suc.hyps(1)[OF len Q dom1, unfolded same]
  from IH obtain ms where
    F: "orchFrame o1 orch'" and ms: "results' = results1 @ ms"
      "map idAndPreset ms = map (\<lambda>c. (simId c, preset c))
         (completedJobs R P env d html M (finishOrder (finishes env) (concurrency orch) (Suc n) rest))"
    and fcnt2: "failedCount orch' = failedCount o1 +
             length (filter (\<lambda>t. \<not> taskReturns R P env d html M t) rest)"
    and ccnt2: "batchReleasesCleanly R P env d html M rest \<longrightarrow>
            completedCount orch' = completedCount o1 +
              length (filter (taskReturns R P env d html M) rest)"
    apply (elim exE conjE)
    subgoal for ms
      apply (rule that[of ms])
          apply assumption+
      done
    done
  define ms' where "ms' = (case res of None \<Rightarrow> [] | Some m \<Rightarrow> [m]) @ ms"
  have a1: "orchFrame orch orch'" by (rule orchFrame_trans[OF f1 F])
  have a2: "results' = results @ ms'" using ms(1) by (simp add: results1_def ms'_def)
  have a3: "map idAndPreset ms' = map (\<lambda>c. (simId c, preset c))
         (completedJobs R P env d html M (finishOrder (finishes env) (concurrency orch) n pending))"
    unfolding cj ms'_def using ms(2) im by (cases res) simp_all
  have a4: "failedCount orch' = failedCount orch +
             length (filter (\<lambda>t. \<not> taskReturns R P env d html M t) pending)"
    unfolding fl using fcnt fcnt2 js by (cases res) simp_all
  have a5: "completedCount orch' = completedCount orch +
              length (filter (taskReturns R P env d html M) pending)"
    if c: "batchReleasesCleanly R P env d html M pending"
  proof -
    from cl[OF c] ccnt ccnt2 have
      "completedCount o1 = completedCount orch + (if res = None then 0 else 1)"
      "completedCount orch' = completedCount o1 + length (filter (taskReturns R P env d html M) rest)"
      by blast+
    then show ?thesis unfolding fl using js by (cases res) simp_all
  qed
  show ?case
    unfolding html_def[symmetric] M_def[symmetric]
    apply (intro conjI)
    subgoal by (rule a1)
    subgoal by (rule exI[of _ ms']) (rule conjI[OF a2 a3])
    subgoal by (rule a4)
    subgoal using a5 by blast
    done
qed

lemma initJobs_frame:
  "maxRetries (initJobs d sims orch) = maxRetries orch \<and>
   poolHtmlPath (initJobs d sims orch) = poolHtmlPath orch \<and>
   concurrency (initJobs d sims orch) = concurrency orch \<and>
   completedCount (initJobs d sims orch) = completedCount orch \<and>
   failedCount (initJobs d sims orch) = failedCount orch \<and>
   startTime (initJobs d sims orch) = startTime orch \<and>
   calls (initJobs d sims orch) = calls orch \<and>
   dom (jobs orch) \<union> (\<lambda>c. simId (mergeWithDefaults c d)) ` set sims \<subseteq> dom (jobs (initJobs d sims orch))"
proof (induction sims arbitrary: orch)
  case Nil
  then show ?case by simp
next
  case (Cons c sims)
  define o1 where "o1 = orch\<lparr>jobs := (jobs orch)(simId (mergeWithDefaults c d) \<mapsto> initJob (mergeWithDefaults c d))\<rparr>"
  have e: "initJobs d (c # sims) orch = initJobs d sims o1" by (simp add: Let_def o1_def)
  have d1: "dom (jobs o1) = insert (simId (mergeWithDefaults c d)) (dom (jobs orch))"
    by (simp add: o1_def)
  have s1: "maxRetries o1 = maxRetries orch" "poolHtmlPath o1 = poolHtmlPath orch"
    "concurrency o1 = concurrency orch" "completedCount o1 = completedCount orch"
    "failedCount o1 = failedCount orch"
    "startTime o1 = startTime orch" "calls o1 = calls orch"
    by (simp_all add: o1_def)
  from Cons.IH[of o1] have IH: "maxRetries (initJobs d sims o1) = maxRetries o1"
    "poolHtmlPath (initJobs d sims o1) = poolHtmlPath o1"
    "concurrency (initJobs d sims o1) = concurrency o1"
    "completedCount (initJobs d sims o1) = completedCount o1"
    "failedCount (initJobs d sims o1) = failedCount o1"
    "startTime (initJobs d sims o1) = startTime o1"
    "calls (initJobs d sims o1) = calls o1"
    "dom (jobs o1) \<union> (\<lambda>c. simId (mergeWithDefaults c d)) ` set sims \<subseteq> dom (jobs (initJobs d sims o1))"
    by simp_all
  have "dom (jobs orch) \<union> (\<lambda>c. simId (mergeWithDefaults c d)) ` set (c # sims)
          \<subseteq> dom (jobs (initJobs d sims o1))"
    using IH(8) unfolding d1 by auto
  then show ?case unfolding e using IH(1-7) s1 by simp
qed

text \<open>What \<open>runBatch\<close> has done when it resolves; \<open>tasks\<close> are the jobs of the batch with
  their positions.\<close>

lemma runBatch_spec:
  assumes "runBatch R P env bc orch = (Inr results, orch')"
    and "tasks = enumerate 0 (batchSimulations bc)"
  shows "\<exists>new doc. calls orch' = calls orch @ new \<and>
           indexDocs new = [(join P (batchOutputDir bc) ''index.json'', doc)] \<and>
           total_simulations doc = length (batchSimulations bc) \<and>
           elapsed_ms doc = clockEnd env - clockStart env \<and>
           simulations doc = map (indexEntry P (batchOutputDir bc)) results \<and>
           map idAndPreset results =
             map (\<lambda>c. (simId c, preset c))
               (completedJobs R P env (defaults bc) (poolHtmlPath orch) (maxRetries orch)
                  (finishOrder (finishes env) (concurrency orch) 0 tasks)) \<and>
           failed doc =
             length (filter (\<lambda>t. \<not> taskReturns R P env (defaults bc) (poolHtmlPath orch) (maxRetries orch) t) tasks) \<and>
           (batchReleasesCleanly R P env (defaults bc) (poolHtmlPath orch) (maxRetries orch) tasks \<longrightarrow>
              completed doc =
                length (filter (taskReturns R P env (defaults bc) (poolHtmlPath orch) (maxRetries orch)) tasks))"
proof -
  define o1 where "o1 = orch\<lparr>startTime := clockStart env, completedCount := 0, failedCount := 0\<rparr>"
  define o2 where "o2 = initJobs (defaults bc) (batchSimulations bc) o1"
  define o2' where "o2' = logCalls [FsMkdir (batchOutputDir bc)] o2"
  note IJ = initJobs_frame[of "defaults bc" "batchSimulations bc" o1, folded o2_def]
  have ok: "outputMkdirOk env"
    using assms(1) by (auto simp: runBatch_def Let_def split: if_splits)
  obtain r o3 where Q: "runQueue R P env (defaults bc) 0 tasks [] o2' = (r, o3)"
    by (cases "runQueue R P env (defaults bc) 0 tasks [] o2'")
  define doc where "doc = \<lparr> total_simulations = length (batchSimulations bc),
                                  completed = completedCount o3,
                                  failed = failedCount o3,
                                  elapsed_ms = clockEnd env - startTime o3,
                                  simulations = map (indexEntry P (batchOutputDir bc)) results \<rparr>"
  from assms(1) ok Q have r: "r = Inr results" and w: "indexWriteOk env"
    and o': "orch' = logCalls [FsWriteFile (join P (batchOutputDir bc) ''index.json'')
                 (IndexJson doc)] o3"
    unfolding doc_def assms(2)
    by (auto simp: runBatch_def Let_def o1_def o2_def o2'_def split: if_splits sum.splits)
  have dm: "\<forall>t \<in> set tasks. simId (mergeWithDefaults (snd t) (defaults bc)) \<in> dom (jobs o2')"
  proof
    fix t assume "t \<in> set tasks"
    then have "t \<in> set (enumerate 0 (batchSimulations bc))" using assms(2) by simp
    then have "fst t < length (batchSimulations bc)" "batchSimulations bc ! fst t = snd t"
      by (simp_all add: in_set_enumerate_eq)
    then have "snd t \<in> set (batchSimulations bc)" using nth_mem by metis
    then have "simId (mergeWithDefaults (snd t) (defaults bc)) \<in> dom (jobs o2)" using IJ by blast
    then show "simId (mergeWithDefaults (snd t) (defaults bc)) \<in> dom (jobs o2')"
      by (simp add: o2'_def logCalls_def)
  qed
  have h: "poolHtmlPath o2' = poolHtmlPath orch" "maxRetries o2' = maxRetries orch"
    "concurrency o2' = concurrency orch" "completedCount o2' = 0" "failedCount o2' = 0"
    "startTime o2' = clockStart env" "calls o2' = calls orch @ [FsMkdir (batchOutputDir bc)]"
    using IJ by (simp_all add: o2'_def logCalls_def o1_def)
  note S = runQueue_spec[OF Q[unfolded r] dm, unfolded h]
  from S obtain ms where
    F: "orchFrame o2' o3" and ms: "results = [] @ ms"
     "map idAndPreset ms = map (\<lambda>c. (simId c, preset c))
        (completedJobs R P env (defaults bc) (poolHtmlPath orch) (maxRetries orch)
           (finishOrder (finishes env) (concurrency orch) 0 tasks))"
    and fc: "failedCount o3 = 0 +
             length (filter (\<lambda>t. \<not> taskReturns R P env (defaults bc) (poolHtmlPath orch) (maxRetries orch) t) tasks)"
    and cc: "batchReleasesCleanly R P env (defaults bc) (poolHtmlPath orch) (maxRetries orch) tasks \<longrightarrow>
            completedCount o3 = 0 +
              length (filter (taskReturns R P env (defaults bc) (poolHtmlPath orch) (maxRetries orch)) tasks)"
    apply (elim exE conjE)
    subgoal for ms
      apply (rule that[of ms])
          apply assumption+
      done
    done
  from F obtain new where n: "calls o3 = calls o2' @ new" "indexDocs new = []"
    by (auto simp: orchFrame_def)
  have st: "startTime o3 = clockStart env" using orchFrameD(3)[OF F] h by simp
  show ?thesis
    apply (rule exI[of _ "[FsMkdir (batchOutputDir bc)] @ new @
             [FsWriteFile (join P (batchOutputDir bc) ''index.json'') (IndexJson doc)]"])
    apply (rule exI[of _ doc])
    apply (intro conjI)
    subgoal using n h by (simp add: o' logCalls_def)
    subgoal using n by (simp add: indexDocs_append)
    subgoal by (simp add: doc_def)
    subgoal using st by (simp add: doc_def)
    subgoal by (simp add: doc_def)
    subgoal using ms by simp
    subgoal using fc by (simp add: doc_def)
    subgoal using cc by (simp add: doc_def)
    done
qed
lemma entries_of_results:
  "map (\<lambda>e. (entryId e, entryPreset e)) (map (indexEntry P out) results) = map idAndPreset results"
  by (simp add: indexEntry_def idAndPreset_def)

lemma mset_completedJobs:
  "mset tasks' = mset tasks \<Longrightarrow>
   mset (completedJobs R P env d html retries tasks') = mset (completedJobs R P env d html retries tasks)"
  by (simp add: completedJobs_def)

lemma clean_failed_count:
  assumes "batchReleasesCleanly R P env d html retries tasks"
  shows "filter (\<lambda>t. \<not> taskReturns R P env d html retries t) tasks =
         filter (taskFails R P env d html retries) tasks"
proof (rule filter_cong[OF refl])
  fix t assume "t \<in> set tasks"
  then have "releasesCleanly R P html retries (mergeWithDefaults (snd t) d) (jobEnv env (fst t))"
    using assms by (simp add: batchReleasesCleanly_def)
  then show "(\<not> taskReturns R P env d html retries t) = taskFails R P env d html retries t"
    unfolding taskReturns_def taskFails_def by (rule clean_not_returns_fails)
qed

text \<open>
  C8, as amended. A batch that resolves has written exactly one \<open>index.json\<close>. It holds
  the number of jobs of the batch, the elapsed time, and one entry per job whose metadata
  the retry wrapper returned, with that job's id and preset, in the order in which the
  jobs finished (so the entries are those jobs, each once, whatever the timing); a job
  that failed for good has no entry. When no \<open>releasePage\<close> of the batch rejects after a
  run that resolved, the completed count is the number of jobs with an entry, the failed
  count is the number of jobs whose every attempt failed, and the two add up to the
  number of jobs. Nothing is said of the counts otherwise, nor of the \<open>path\<close> field of an
  entry.
\<close>

theorem batch_index_document:
  assumes "runBatch R P env bc orch = (Inr results, orch')"
  shows "\<exists>new doc. calls orch' = calls orch @ new \<and>
           indexDocs new = [(join P (batchOutputDir bc) ''index.json'', doc)] \<and>
           total_simulations doc = length (batchSimulations bc) \<and>
           elapsed_ms doc = clockEnd env - clockStart env \<and>
           map (\<lambda>e. (entryId e, entryPreset e)) (simulations doc) =
             map (\<lambda>c. (simId c, preset c))
               (completedJobs R P env (defaults bc) (poolHtmlPath orch) (maxRetries orch)
                  (finishOrder (finishes env) (concurrency orch) 0
                     (enumerate 0 (batchSimulations bc)))) \<and>
           mset (map (\<lambda>e. (entryId e, entryPreset e)) (simulations doc)) =
             mset (map (\<lambda>c. (simId c, preset c))
               (completedJobs R P env (defaults bc) (poolHtmlPath orch) (maxRetries orch)
                  (enumerate 0 (batchSimulations bc)))) \<and>
           (batchReleasesCleanly R P env (defaults bc) (poolHtmlPath orch) (maxRetries orch)
              (enumerate 0 (batchSimulations bc)) \<longrightarrow>
              completed doc =
                length (filter (taskReturns R P env (defaults bc) (poolHtmlPath orch) (maxRetries orch))
                          (enumerate 0 (batchSimulations bc))) \<and>
              failed doc =
                length (filter (taskFails R P env (defaults bc) (poolHtmlPath orch) (maxRetries orch))
                          (enumerate 0 (batchSimulations bc))) \<and>
              completed doc + failed doc = length (batchSimulations bc))"
proof -
  define tasks where "tasks = enumerate 0 (batchSimulations bc)"
  define html where "html = poolHtmlPath orch"
  define M where "M = maxRetries orch"
  define d where "d = defaults bc"
  from runBatch_spec[OF assms tasks_def, folded html_def M_def d_def] obtain new doc where
    a: "calls orch' = calls orch @ new"
       "indexDocs new = [(join P (batchOutputDir bc) ''index.json'', doc)]"
       "total_simulations doc = length (batchSimulations bc)"
       "elapsed_ms doc = clockEnd env - clockStart env"
       "simulations doc = map (indexEntry P (batchOutputDir bc)) results"
       "map idAndPreset results =
             map (\<lambda>c. (simId c, preset c))
               (completedJobs R P env d html M (finishOrder (finishes env) (concurrency orch) 0 tasks))"
       "failed doc = length (filter (\<lambda>t. \<not> taskReturns R P env d html M t) tasks)"
       "batchReleasesCleanly R P env d html M tasks \<longrightarrow>
              completed doc = length (filter (taskReturns R P env d html M) tasks)"
    apply (elim exE conjE)
    subgoal for new doc
      apply (rule that[of new doc])
             apply assumption+
      done
    done
  have e: "map (\<lambda>e. (entryId e, entryPreset e)) (simulations doc) =
             map (\<lambda>c. (simId c, preset c))
               (completedJobs R P env d html M (finishOrder (finishes env) (concurrency orch) 0 tasks))"
    unfolding a(5) entries_of_results by (rule a(6))
  have "mset (completedJobs R P env d html M (finishOrder (finishes env) (concurrency orch) 0 tasks))
        = mset (completedJobs R P env d html M tasks)"
    by (rule mset_completedJobs) (rule mset_finishOrder)
  then have m: "mset (map (\<lambda>e. (entryId e, entryPreset e)) (simulations doc)) =
             mset (map (\<lambda>c. (simId c, preset c)) (completedJobs R P env d html M tasks))"
    unfolding e by simp
  have c: "completed doc = length (filter (taskReturns R P env d html M) tasks) \<and>
           failed doc = length (filter (taskFails R P env d html M) tasks) \<and>
           completed doc + failed doc = length (batchSimulations bc)"
    if cl: "batchReleasesCleanly R P env d html M tasks"
  proof -
    have c1: "completed doc = length (filter (taskReturns R P env d html M) tasks)"
      using a(8) cl by blast
    have c2: "failed doc = length (filter (taskFails R P env d html M) tasks)"
      unfolding a(7) clean_failed_count[OF cl] ..
    have "length (filter (taskReturns R P env d html M) tasks) +
          length (filter (\<lambda>t. \<not> taskReturns R P env d html M t) tasks) = length tasks"
      by (rule sum_length_filter_compl)
    then have c3: "completed doc + failed doc = length (batchSimulations bc)"
      unfolding c1 a(7) by (simp add: tasks_def)
    from c1 c2 c3 show ?thesis by blast
  qed
  show ?thesis
    unfolding tasks_def[symmetric] html_def[symmetric] M_def[symmetric] d_def[symmetric]
    apply (rule exI[of _ new])
    apply (rule exI[of _ doc])
    apply (intro conjI)
    subgoal by (rule a(1))
    subgoal by (rule a(2))
    subgoal by (rule a(3))
    subgoal by (rule a(4))
    subgoal by (rule e)
    subgoal by (rule m)
    subgoal using c by blast
    done
qed

lemma mixedBatch_resolves:
  "resolved (fst (runBatch sampleRenderer samplePaths mixedBatchEnv mixedBatch
                    (newOrchestrator ''index.html'' 2 0)))"
  by code_simp

lemma passingAttempt_passes_third:
  "attemptSucceeds sampleRenderer samplePaths ''index.html'' thirdConfig passingAttempt"
  by code_simp

lemma failingAttempt_fails_other:
  "\<not> attemptSucceeds sampleRenderer samplePaths ''index.html'' otherConfig failingAttempt"
  by code_simp

lemma mixedBatch_tasks:
  "enumerate 0 (batchSimulations mixedBatch) = [(0, sampleConfig), (1, otherConfig), (2, thirdConfig)]"
  by (simp add: mixedBatch_def)

lemma mixedBatch_order:
  "finishOrder (finishes mixedBatchEnv) 2 0 [(0, sampleConfig), (1, otherConfig), (2, thirdConfig)]
     = [(1, otherConfig), (2, thirdConfig), (0, sampleConfig)]"
  by (simp add: finishOrder_step finishOrder_Nil nextToFinish_def without_def mixedBatchEnv_def)

lemma mixedBatch_returns:
  "taskReturns sampleRenderer samplePaths mixedBatchEnv None ''index.html'' 0 (0, sampleConfig)"
  "\<not> taskReturns sampleRenderer samplePaths mixedBatchEnv None ''index.html'' 0 (1, otherConfig)"
  "taskReturns sampleRenderer samplePaths mixedBatchEnv None ''index.html'' 0 (2, thirdConfig)"
  "taskFails sampleRenderer samplePaths mixedBatchEnv None ''index.html'' 0 (1, otherConfig)"
  "\<not> taskFails sampleRenderer samplePaths mixedBatchEnv None ''index.html'' 0 (0, sampleConfig)"
  "\<not> taskFails sampleRenderer samplePaths mixedBatchEnv None ''index.html'' 0 (2, thirdConfig)"
  using passingAttempt_passes passingAttempt_passes_third failingAttempt_fails_other
  by (simp_all add: taskReturns_def taskFails_def jobReturns_def jobFails_def attemptReturns_def
        mergeWithDefaults_def mixedBatchEnv_def healthyJob_def doomedJob_def passingAttempt_def
        failingAttempt_def)

lemma mixedBatch_clean:
  "batchReleasesCleanly sampleRenderer samplePaths mixedBatchEnv None ''index.html'' 0
     [(0, sampleConfig), (1, otherConfig), (2, thirdConfig)]"
  by (simp add: batchReleasesCleanly_def releasesCleanly_def mixedBatchEnv_def healthyJob_def
        doomedJob_def passingAttempt_def failingAttempt_def)

theorem batch_index_document_witness:
  "resolved (fst (runBatch sampleRenderer samplePaths mixedBatchEnv mixedBatch
                    (newOrchestrator ''index.html'' 2 0))) \<and>
   (\<exists>doc. indexDocs (calls (snd (runBatch sampleRenderer samplePaths mixedBatchEnv mixedBatch
                                    (newOrchestrator ''index.html'' 2 0))))
            = [(join samplePaths (batchOutputDir mixedBatch) ''index.json'', doc)] \<and>
          total_simulations doc = 3 \<and>
          elapsed_ms doc = 5000 \<and>
          map (\<lambda>e. (entryId e, entryPreset e)) (simulations doc) =
            [(''job-3'', ''GrayScott''), (''job-1'', ''GrayScott'')] \<and>
          completed doc = 2 \<and> failed doc = 1)"
proof -
  define rb where "rb = runBatch sampleRenderer samplePaths mixedBatchEnv mixedBatch
                    (newOrchestrator ''index.html'' 2 0)"
  have r: "resolved (fst rb)" unfolding rb_def by (rule mixedBatch_resolves)
  then obtain results where "fst rb = Inr results"
    by (cases "fst rb") (simp_all add: resolved_def)
  then have h: "runBatch sampleRenderer samplePaths mixedBatchEnv mixedBatch
                    (newOrchestrator ''index.html'' 2 0) = (Inr results, snd rb)"
    unfolding rb_def by (simp add: prod_eq_iff)
  have c: "calls (newOrchestrator ''index.html'' 2 0) = []"
    "poolHtmlPath (newOrchestrator ''index.html'' 2 0) = ''index.html''"
    "maxRetries (newOrchestrator ''index.html'' 2 0) = 0"
    "concurrency (newOrchestrator ''index.html'' 2 0) = 2"
    "length (batchSimulations mixedBatch) = 3"
    "defaults mixedBatch = None"
    "clockEnd mixedBatchEnv - clockStart mixedBatchEnv = 5000"
    by (simp_all add: newOrchestrator_def mixedBatch_def mixedBatchEnv_def)
  have s: "map (\<lambda>c. (simId c, preset c))
             (completedJobs sampleRenderer samplePaths mixedBatchEnv None ''index.html'' 0
                [(1, otherConfig), (2, thirdConfig), (0, sampleConfig)])
           = [(''job-3'', ''GrayScott''), (''job-1'', ''GrayScott'')]"
    using mixedBatch_returns
    by (simp add: completedJobs_def mergeWithDefaults_def sampleConfig_def thirdConfig_def)
  have n2: "length (filter (taskReturns sampleRenderer samplePaths mixedBatchEnv None ''index.html'' 0)
              [(0, sampleConfig), (1, otherConfig), (2, thirdConfig)]) = 2"
    and n1: "length (filter (taskFails sampleRenderer samplePaths mixedBatchEnv None ''index.html'' 0)
              [(0, sampleConfig), (1, otherConfig), (2, thirdConfig)]) = 1"
    using mixedBatch_returns by simp_all
  from batch_index_document[OF h, unfolded c mixedBatch_tasks mixedBatch_order s]
  obtain new doc where
    a: "calls (snd rb) = [] @ new"
       "indexDocs new = [(join samplePaths (batchOutputDir mixedBatch) ''index.json'', doc)]"
       "total_simulations doc = 3"
       "elapsed_ms doc = 5000"
       "map (\<lambda>e. (entryId e, entryPreset e)) (simulations doc) =
            [(''job-3'', ''GrayScott''), (''job-1'', ''GrayScott'')]"
       "batchReleasesCleanly sampleRenderer samplePaths mixedBatchEnv None ''index.html'' 0
              [(0, sampleConfig), (1, otherConfig), (2, thirdConfig)] \<longrightarrow>
              completed doc =
                length (filter (taskReturns sampleRenderer samplePaths mixedBatchEnv None ''index.html'' 0)
                          [(0, sampleConfig), (1, otherConfig), (2, thirdConfig)]) \<and>
              failed doc =
                length (filter (taskFails sampleRenderer samplePaths mixedBatchEnv None ''index.html'' 0)
                          [(0, sampleConfig), (1, otherConfig), (2, thirdConfig)]) \<and>
              completed doc + failed doc = 3"
    apply (elim exE conjE)
    subgoal for new doc
      apply (rule that[of new doc])
           apply assumption+
      done
    done
  have n: "indexDocs (calls (snd rb)) = [(join samplePaths (batchOutputDir mixedBatch) ''index.json'', doc)]"
    using a(1,2) by simp
  have k: "completed doc = 2" "failed doc = 1"
    using a(6) mixedBatch_clean unfolding n2 n1 by blast+
  show ?thesis
    unfolding rb_def[symmetric]
    apply (rule conjI[OF r])
    apply (rule exI[of _ doc])
    apply (intro conjI)
    subgoal by (rule n)
    subgoal by (rule a(3))
    subgoal by (rule a(4))
    subgoal by (rule a(5))
    subgoal by (rule k(1))
    subgoal by (rule k(2))
    done
qed

text \<open>
  C8 as stated fails: a batch of one job that fails for good writes an index with no
  entry.
\<close>

theorem batch_index_counterexample:
  "length (batchSimulations failingBatch) = 1 \<and>
   map simulations (map snd (indexDocs (calls (snd
     (runBatch sampleRenderer samplePaths doomedBatchEnv failingBatch
        (newOrchestrator ''index.html'' 1 0)))))) = [[]]"
  by code_simp

section \<open>Properties of the session runner: order of initialisation, late interventions\<close>

lemma appliedRefs_append: "appliedRefs (xs @ ys) = appliedRefs xs @ appliedRefs ys"
  by (induction xs rule: appliedRefs.induct) auto

lemma keeps_resolve: "passes pre Q \<Longrightarrow> keeps pre Q (resolve a)"
  by (auto simp: keeps_def passes_def resolve_def)

lemma keeps_throw: "passes pre Q \<Longrightarrow> keeps pre Q (throw e)"
  by (auto simp: keeps_def passes_def throw_def)

lemma keeps_if: "keeps pre Q m \<Longrightarrow> keeps pre Q m' \<Longrightarrow> keeps pre Q (if b then m else m')"
  by simp

lemma keeps_andThen:
  assumes "passes pre Q" "keeps pre Q m" "\<And>a. keeps pre Q (f a)"
  shows "keeps pre Q (andThen m f)"
  unfolding keeps_def
proof (intro allI impI)
  fix w r w' assume p: "pre w" and e: "andThen m f w = (r, w')"
  obtain r1 w1 where m: "m w = (r1, w1)" by (cases "m w")
  have q1: "Q w w1" using assms(2) p m by (auto simp: keeps_def)
  show "Q w w'"
  proof (cases r1)
    case (Inl x)
    with e m have "w' = w1" by (simp add: andThen_def)
    with q1 show ?thesis by simp
  next
    case (Inr a)
    with e m have "f a w1 = (r, w')" by (simp add: andThen_def)
    moreover have "pre w1" using assms(1) p q1 by (auto simp: passes_def)
    ultimately have "Q w1 w'" using assms(3)[of a] by (auto simp: keeps_def)
    with q1 assms(1) show ?thesis unfolding passes_def by blast
  qed
qed

lemma keeps_await:
  assumes "passes pre Q"
    and "\<And>w k. pre w \<Longrightarrow> Q w (w\<lparr>trace := trace w @ evs, failAfter := k\<rparr>)"
  shows "keeps pre Q (await e evs ans)"
  unfolding keeps_def
proof (intro allI impI)
  fix w r w' assume p: "pre w" and e: "await e evs ans w = (r, w')"
  show "Q w w'"
  proof (cases "failAfter w")
    case None
    then have "w\<lparr>trace := trace w @ evs\<rparr> = w\<lparr>trace := trace w @ evs, failAfter := None\<rparr>"
      by simp
    with e None have "w' = w\<lparr>trace := trace w @ evs, failAfter := None\<rparr>"
      by (simp add: await_def)
    with assms(2)[OF p] show ?thesis by simp
  next
    case (Some n)
    show ?thesis
    proof (cases n)
      case 0
      with e Some have "w' = w" by (simp add: await_def)
      with assms(1) p show ?thesis by (simp add: passes_def)
    next
      case (Suc k)
      with e Some have "w' = w\<lparr>trace := trace w @ evs, failAfter := Some k\<rparr>"
        by (simp add: await_def)
      with assms(2)[OF p] show ?thesis by simp
    qed
  qed
qed

lemma await_Inr:
  "await e evs ans w = (Inr a, w') \<Longrightarrow>
   a = ans (trace w) \<and> trace w' = trace w @ evs \<and> heap w' = heap w"
  by (auto simp: await_def split: option.splits nat.splits)

lemma passes_extends: "passes (\<lambda>w. True) extends"
  by (auto simp: passes_def extends_def)

lemma passes_untouched: "passes (\<lambda>w. p (heap w r)) (untouched r)"
  by (auto simp: passes_def untouched_def)

lemma keeps_weaken: "keeps pre Q m \<Longrightarrow> (\<And>w. pre' w \<Longrightarrow> pre w) \<Longrightarrow> keeps pre' Q m"
  by (auto simp: keeps_def)

lemma applyScheduled_unfold:
  "applyScheduled R ivs fr i w =
     (if i < length ivs \<and> frame (heap w (ivs ! i)) = fr then
        (case applyOne R (ivs ! i) w of
           (Inl e, w') \<Rightarrow> (Inl e, w')
         | (Inr _, w') \<Rightarrow> applyScheduled R ivs fr (Suc i) w')
      else (Inr i, w))"
  by (subst applyScheduled.simps) (simp add: applyOne_def)

lemma applyScheduled_keeps:
  assumes ps: "passes pre Q"
    and body: "\<And>i w res w'. pre w \<Longrightarrow> i < length ivs \<Longrightarrow> frame (heap w (ivs ! i)) = fr \<Longrightarrow>
                 applyOne R (ivs ! i) w = (res, w') \<Longrightarrow> Q w w'"
  shows "keeps pre Q (applyScheduled R ivs fr i)"
proof (induction n \<equiv> "length ivs - i" arbitrary: i)
  case 0
  then have "\<not> i < length ivs" by simp
  then show ?case using ps by (auto simp: keeps_def passes_def applyScheduled_unfold[of R ivs fr i])
next
  case (Suc n)
  then have n: "n = length ivs - Suc i" and lt: "i < length ivs" by simp_all
  note IH = Suc.hyps(1)[OF n]
  show ?case unfolding keeps_def
  proof (intro allI impI)
    fix w r w' assume p: "pre w" and e: "applyScheduled R ivs fr i w = (r, w')"
    show "Q w w'"
    proof (cases "frame (heap w (ivs ! i)) = fr")
      case False
      with e have "w' = w" by (simp add: applyScheduled_unfold[of R ivs fr i])
      with ps p show ?thesis by (simp add: passes_def)
    next
      case True
      obtain r1 w1 where b: "applyOne R (ivs ! i) w = (r1, w1)" by (cases "applyOne R (ivs ! i) w")
      have q1: "Q w w1" using body[OF p lt True b] .
      show ?thesis
      proof (cases r1)
        case (Inl x)
        with e b True lt have "w' = w1" by (simp add: applyScheduled_unfold[of R ivs fr i])
        with q1 show ?thesis by simp
      next
        case (Inr a)
        with e b True lt have "applyScheduled R ivs fr (Suc i) w1 = (r, w')"
          by (simp add: applyScheduled_unfold[of R ivs fr i])
        moreover have "pre w1" using ps p q1 by (auto simp: passes_def)
        ultimately have "Q w1 w'" using IH by (auto simp: keeps_def)
        with q1 ps show ?thesis unfolding passes_def by blast
      qed
    qed
  qed
qed

lemma frameLoop_unfold:
  "frameLoop R P cfg dir ivs fr i anns w =
     (if fr < totalFrames cfg then
        (case andThen (applyScheduled R ivs fr i) (\<lambda>i.
              andThen (captureStep R P cfg dir ivs fr) (\<lambda>a. resolve (i, a))) w of
           (Inl e, w') \<Rightarrow> (Inl e, w')
         | (Inr (i, a), w') \<Rightarrow> frameLoop R P cfg dir ivs (fr + 1) i (anns @ [a]) w')
      else (Inr anns, w))"
  by (subst frameLoop.simps) simp

lemma frameLoop_keeps:
  assumes ps: "passes pre Q"
    and body: "\<And>fr i. fr < totalFrames cfg \<Longrightarrow>
                 keeps pre Q (andThen (applyScheduled R ivs fr i) (\<lambda>i.
                    andThen (captureStep R P cfg dir ivs fr) (\<lambda>a. resolve (i, a))))"
  shows "keeps pre Q (frameLoop R P cfg dir ivs fr i anns)"
proof (induction n \<equiv> "nat (totalFrames cfg - fr)" arbitrary: fr i anns)
  case 0
  then have "\<not> fr < totalFrames cfg" by simp
  then show ?case using ps
    by (auto simp: keeps_def passes_def frameLoop_unfold[of R P cfg dir ivs fr i anns])
next
  case (Suc n)
  then have n: "n = nat (totalFrames cfg - (fr + 1))" and lt: "fr < totalFrames cfg" by simp_all
  note IH = Suc.hyps(1)[OF n]
  define body1 where "body1 = andThen (applyScheduled R ivs fr i) (\<lambda>i.
                    andThen (captureStep R P cfg dir ivs fr) (\<lambda>a. resolve (i, a)))"
  show ?case unfolding keeps_def
  proof (intro allI impI)
    fix w r w' assume p: "pre w" and e: "frameLoop R P cfg dir ivs fr i anns w = (r, w')"
    obtain r1 w1 where b: "body1 w = (r1, w1)" by (cases "body1 w")
    have q1: "Q w w1" using body[OF lt, of i] p b by (auto simp: keeps_def body1_def)
    show "Q w w'"
    proof (cases r1)
      case (Inl x)
      with e b lt have "w' = w1" by (simp add: frameLoop_unfold[of R P cfg dir ivs fr i anns] body1_def[symmetric])
      with q1 show ?thesis by simp
    next
      case (Inr ia)
      obtain i' a where ia: "ia = (i', a)" by (cases ia)
      with Inr e b lt have "frameLoop R P cfg dir ivs (fr + 1) i' (anns @ [a]) w1 = (r, w')"
        by (simp add: frameLoop_unfold[of R P cfg dir ivs fr i anns] body1_def[symmetric])
      moreover have "pre w1" using ps p q1 by (auto simp: passes_def)
      ultimately have "Q w1 w'" using IH by (auto simp: keeps_def)
      with q1 ps show ?thesis unfolding passes_def by blast
    qed
  qed
qed

lemma stepsOk_passes: "stepsOk T pre Q \<Longrightarrow> passes pre Q"
  unfolding stepsOk_def by (elim conjE)

lemma stepsOk_plain:
  "stepsOk T pre Q \<Longrightarrow> pre w \<Longrightarrow> appliedRefs evs = [] \<Longrightarrow>
   Q w (w\<lparr>trace := trace w @ evs, failAfter := k\<rparr>)"
  unfolding stepsOk_def by (elim conjE allE[of _ w] allE[of _ evs] allE[of _ k] impE) assumption+

lemma stepsOk_brush:
  "stepsOk T pre Q \<Longrightarrow> pre w \<Longrightarrow> frame (heap w q) < T \<Longrightarrow>
   Q w (w\<lparr>trace := trace w @ [ApplyBrush q x y s v rad], failAfter := k\<rparr>)"
  unfolding stepsOk_def by (elim conjE) blast

lemma stepsOk_time:
  "stepsOk T pre Q \<Longrightarrow> pre w \<Longrightarrow> frame (heap w q) < T \<Longrightarrow>
   Q w (w\<lparr>heap := (heap w)(q := (heap w q)\<lparr>simulationTime := Some t\<rparr>)\<rparr>)"
  unfolding stepsOk_def by (elim conjE) blast

lemma stepsOk_await:
  assumes "stepsOk T pre Q" "appliedRefs evs = []"
  shows "keeps pre Q (await e evs ans)"
proof (rule keeps_await[OF stepsOk_passes[OF assms(1)]])
  fix w k assume "pre w"
  then show "Q w (w\<lparr>trace := trace w @ evs, failAfter := k\<rparr>)"
    using stepsOk_plain[OF assms(1) _ assms(2)] by blast
qed

lemma await_result:
  obtains (rejected) "await e evs ans w = (Inl e, w)"
  | (resolved) k where "await e evs ans w = (Inr (ans (trace w)), w\<lparr>trace := trace w @ evs, failAfter := k\<rparr>)"
proof (cases "failAfter w")
  case None
  then have "w\<lparr>trace := trace w @ evs\<rparr> = w\<lparr>trace := trace w @ evs, failAfter := None\<rparr>" by simp
  with None have "await e evs ans w = (Inr (ans (trace w)), w\<lparr>trace := trace w @ evs, failAfter := None\<rparr>)"
    by (simp add: await_def)
  then show ?thesis by (rule resolved)
next
  case (Some n)
  then show ?thesis by (cases n) (auto simp: await_def intro: rejected resolved)
qed

lemma applyOne_keeps:
  assumes ok: "stepsOk T pre Q" and p: "pre w" and f: "frame (heap w q) < T"
    and e: "applyOne R q w = (res, w')"
  shows "Q w w'"
proof -
  note ps = stepsOk_passes[OF ok]
  have refl: "\<And>w. pre w \<Longrightarrow> Q w w" and tr: "\<And>a b c. Q a b \<Longrightarrow> Q b c \<Longrightarrow> Q a c"
    and st: "\<And>a b. pre a \<Longrightarrow> Q a b \<Longrightarrow> pre b"
    using ps unfolding passes_def by blast+
  define p0 where "p0 = params (heap w q)"
  define ev where "ev = ApplyBrush q (brush_x p0) (brush_y p0) (brush_species p0) (brush_value p0) (brush_radius p0)"
  have ai: "applyIntervention q w = await RemoteCallFailure [ev] (\<lambda>_. ()) w"
    by (cases "itype (heap w q)") (simp add: applyIntervention_def Let_def ev_def p0_def)
  show ?thesis
  proof (cases rule: await_result[of RemoteCallFailure "[ev]" "\<lambda>_. ()" w])
    case rejected
    with e ai have "w' = w" by (simp add: applyOne_def andThen_def)
    with refl[OF p] show ?thesis by simp
  next
    case (resolved k)
    define w1 where "w1 = w\<lparr>trace := trace w @ [ev], failAfter := k\<rparr>"
    have q1: "Q w w1" unfolding w1_def ev_def by (rule stepsOk_brush[OF ok p f])
    have p1: "pre w1" using st[OF p q1] .
    have h1: "heap w1 = heap w" by (simp add: w1_def)
    show ?thesis
    proof (cases rule: await_result[of RemoteCallFailure "[GetTime]" "getTime R" w1])
      case rejected
      with e ai resolved have "w' = w1" by (simp add: applyOne_def andThen_def w1_def)
      with q1 show ?thesis by simp
    next
      case (resolved k2)
      define w2 where "w2 = w1\<lparr>trace := trace w1 @ [GetTime], failAfter := k2\<rparr>"
      have q2: "Q w1 w2" unfolding w2_def by (rule stepsOk_plain[OF ok p1]) simp
      have p2: "pre w2" using st[OF p1 q2] .
      have h2: "heap w2 = heap w" by (simp add: w2_def h1)
      have "w' = w2\<lparr>heap := (heap w2)(q := (heap w2 q)\<lparr>simulationTime := Some (getTime R (trace w1))\<rparr>)\<rparr>"
        using e ai \<open>await RemoteCallFailure [ev] (\<lambda>_. ()) w = _\<close> resolved
        by (simp add: applyOne_def andThen_def w1_def w2_def setSimulationTime_def)
      moreover have "frame (heap w2 q) < T" using f h2 by simp
      ultimately have "Q w2 w'" using stepsOk_time[OF ok p2] by simp
      with q1 q2 show ?thesis using tr by blast
    qed
  qed
qed

lemma keeps_dep: "(\<And>x. keeps pre Q (F x)) \<Longrightarrow> keeps pre Q (\<lambda>w. F (g w) w)"
  by (auto simp: keeps_def)

lemma saveFrame_keeps: "stepsOk T pre Q \<Longrightarrow> keeps pre Q (saveFrame P d dir n)"
  unfolding saveFrame_def Let_def by (rule stepsOk_await) simp_all

lemma captureStep_keeps:
  assumes ok: "stepsOk T pre Q"
  shows "keeps pre Q (captureStep R P cfg dir ivs fr)"
proof -
  note ps = stepsOk_passes[OF ok]
  have last: "\<And>simTime. keeps pre Q (\<lambda>w. resolve \<lparr> frameIndex = fr, annotationTime = simTime,
                 annotationIntervention = find (\<lambda>i. frame (heap w i) = fr) ivs \<rparr> w)"
    using ps by (simp add: keeps_def resolve_def passes_def)
  have a1: "keeps pre Q (await RemoteCallFailure [StepN (timestepsPerFrame cfg), Render] (\<lambda>_. ()))"
    by (rule stepsOk_await[OF ok]) simp
  have a2: "keeps pre Q (await RemoteCallFailure [CaptureFrame] (captureFrame R))"
    by (rule stepsOk_await[OF ok]) simp
  have a3: "keeps pre Q (await RemoteCallFailure [GetTime] (getTime R))"
    by (rule stepsOk_await[OF ok]) simp
  show ?thesis
    unfolding captureStep_def
    by (intro keeps_andThen ps a1 a2 a3 saveFrame_keeps[OF ok] last)
qed

lemma frameLoop_stepsOk:
  assumes ok: "stepsOk (totalFrames cfg) pre Q"
  shows "keeps pre Q (frameLoop R P cfg dir ivs fr i anns)"
proof (rule frameLoop_keeps[OF stepsOk_passes[OF ok]])
  fix fr i assume lt: "fr < totalFrames cfg"
  have "keeps pre Q (applyScheduled R ivs fr i)"
  proof (rule applyScheduled_keeps[OF stepsOk_passes[OF ok]])
    fix i w res w'
    assume "pre w" "i < length ivs" "frame (heap w (ivs ! i)) = fr" "applyOne R (ivs ! i) w = (res, w')"
    then show "Q w w'" using applyOne_keeps[OF ok, of w "ivs ! i" R res w'] lt by simp
  qed
  then show "keeps pre Q (andThen (applyScheduled R ivs fr i) (\<lambda>i.
                    andThen (captureStep R P cfg dir ivs fr) (\<lambda>a. resolve (i, a))))"
    by (intro keeps_andThen stepsOk_passes[OF ok] captureStep_keeps[OF ok] keeps_resolve)
qed

lemma collectMetadata_keeps:
  "stepsOk T pre Q \<Longrightarrow> keeps pre Q (collectMetadata R cfg anns)"
  unfolding collectMetadata_def
  by (intro keeps_andThen keeps_if keeps_throw keeps_resolve stepsOk_await[of T pre Q]
        stepsOk_passes[of T pre Q]) simp_all

lemma run_split:
  "run R P html cfg =
     andThen (await ArtifactWriteFailure [Mkdir (join P (outputDir cfg) ''frames'')] (\<lambda>_. ())) (\<lambda>_.
     andThen (await LoadTimeout [Goto html (preset cfg)] (\<lambda>_. ())) (\<lambda>_.
     andThen (await LoadTimeout [WaitForReady] (\<lambda>_. ())) (\<lambda>_.
     andThen (seedStep cfg) (\<lambda>_.
     afterSeed R P cfg (join P (outputDir cfg) ''frames'')))))"
  by (simp add: run_def afterSeed_def seedStep_def Let_def)

lemma appliedRefs_setOptions: "appliedRefs (map (\<lambda>(key, v). SetOption key v) opts @ es) = appliedRefs es"
  by (induction opts) (auto simp: split_def)

lemma afterSeed_keeps:
  assumes ok: "stepsOk (totalFrames cfg) pre Q"
  shows "keeps pre Q (afterSeed R P cfg dir)"
  unfolding afterSeed_def
proof -
  note ps = stepsOk_passes[OF ok]
  have o: "keeps pre Q (case options cfg of
                    None \<Rightarrow> resolve ()
                  | Some opts \<Rightarrow>
                      if length opts > 0
                      then await RemoteCallFailure
                             (map (\<lambda>(key, v). SetOption key v) opts @ [UpdateProblem]) (\<lambda>_. ())
                      else resolve ())"
  proof (cases "options cfg")
    case None
    then show ?thesis by (simp add: keeps_resolve[OF ps])
  next
    case (Some opts)
    have "keeps pre Q (await RemoteCallFailure
                             (map (\<lambda>(key, v). SetOption key v) opts @ [UpdateProblem]) (\<lambda>_. ()))"
      by (rule stepsOk_await[OF ok]) (simp add: appliedRefs_setOptions)
    with Some show ?thesis by (simp add: keeps_resolve[OF ps])
  qed
  have r: "keeps pre Q (await RemoteCallFailure [Reset] (\<lambda>_. ()))"
    by (rule stepsOk_await[OF ok]) simp
  have l: "keeps pre Q (\<lambda>w. frameLoop R P cfg dir (sortedInterventions (heap w) cfg) 0 0 [] w)"
    using frameLoop_stepsOk[OF ok, of R P dir] unfolding keeps_def by blast
  have wr: "\<And>metadata. keeps pre Q (\<lambda>w. await ArtifactWriteFailure
                         [WriteFile (join P (outputDir cfg) ''metadata.json'')
                                    (MetadataJson (stringify (heap w) metadata))] (\<lambda>_. ()) w)"
    unfolding keeps_def
  proof (intro allI impI)
    fix metadata w r w'
    assume p: "pre w" and e: "await ArtifactWriteFailure
                         [WriteFile (join P (outputDir cfg) ''metadata.json'')
                                    (MetadataJson (stringify (heap w) metadata))] (\<lambda>_. ()) w = (r, w')"
    have "keeps pre Q (await ArtifactWriteFailure
                         [WriteFile (join P (outputDir cfg) ''metadata.json'')
                                    (MetadataJson (stringify (heap w) metadata))] (\<lambda>_. ()))"
      by (rule stepsOk_await[OF ok]) simp
    with p e show "Q w w'" unfolding keeps_def by blast
  qed
  show "keeps pre Q
     (andThen (case options cfg of
                    None \<Rightarrow> resolve ()
                  | Some opts \<Rightarrow>
                      if length opts > 0
                      then await RemoteCallFailure
                             (map (\<lambda>(key, v). SetOption key v) opts @ [UpdateProblem]) (\<lambda>_. ())
                      else resolve ()) (\<lambda>_.
         andThen (await RemoteCallFailure [Reset] (\<lambda>_. ())) (\<lambda>_.
         andThen (\<lambda>w. frameLoop R P cfg dir (sortedInterventions (heap w) cfg) 0 0 [] w)
           (\<lambda>annotations.
         andThen (collectMetadata R cfg annotations) (\<lambda>metadata.
         andThen (\<lambda>w. await ArtifactWriteFailure
                         [WriteFile (join P (outputDir cfg) ''metadata.json'')
                                    (MetadataJson (stringify (heap w) metadata))] (\<lambda>_. ()) w) (\<lambda>_.
         resolve metadata))))))"
    by (intro keeps_andThen ps o r l wr collectMetadata_keeps[OF ok] keeps_resolve)
qed

lemma seedStep_keeps:
  assumes ok: "stepsOk T pre Q"
  shows "keeps pre Q (seedStep cfg)"
proof (cases "randomSeed cfg")
  case None
  then show ?thesis by (simp add: seedStep_def keeps_resolve[OF stepsOk_passes[OF ok]])
next
  case (Some seed)
  have "keeps pre Q (await RemoteCallFailure [SetSeed seed] (\<lambda>_. ()))"
    by (rule stepsOk_await[OF ok]) simp
  with Some show ?thesis by (simp add: seedStep_def)
qed

lemma run_keeps:
  assumes ok: "stepsOk (totalFrames cfg) pre Q"
  shows "keeps pre Q (run R P html cfg)"
  unfolding run_split
  by (intro keeps_andThen stepsOk_passes[OF ok] stepsOk_await[OF ok] seedStep_keeps[OF ok]
        afterSeed_keeps[OF ok]) simp_all

lemma stepsOk_extends: "stepsOk T (\<lambda>w. True) extends"
  unfolding stepsOk_def
  by (intro conjI passes_extends) (auto simp: extends_def)

lemma stepsOk_untouched: "stepsOk T (\<lambda>w. T \<le> frame (heap w r)) (untouched r)"
  unfolding stepsOk_def
proof (intro conjI allI impI)
  show "passes (\<lambda>w. T \<le> frame (heap w r)) (untouched r)"
    by (rule passes_untouched[of "\<lambda>iv. T \<le> frame iv"])
next
  fix w :: World and evs k assume "appliedRefs evs = []"
  then show "untouched r w (w\<lparr>trace := trace w @ evs, failAfter := k\<rparr>)"
    by (simp add: untouched_def appliedRefs_append)
next
  fix w :: World and q x y s v rad k assume "T \<le> frame (heap w r)" "frame (heap w q) < T"
  then have "q \<noteq> r" by auto
  then show "untouched r w (w\<lparr>trace := trace w @ [ApplyBrush q x y s v rad], failAfter := k\<rparr>)"
    by (simp add: untouched_def appliedRefs_append)
next
  fix w :: World and q t assume "T \<le> frame (heap w r)" "frame (heap w q) < T"
  then have "q \<noteq> r" by auto
  then show "untouched r w (w\<lparr>heap := (heap w)(q := (heap w q)\<lparr>simulationTime := Some t\<rparr>)\<rparr>)"
    by (simp add: untouched_def)
qed

lemma run_untouched:
  assumes "totalFrames cfg \<le> frame (h r)" and "run R P html cfg (newWorld h k) = (res, w')"
  shows "heap w' r = h r \<and> r \<notin> set (appliedRefs (trace w'))"
proof -
  have "keeps (\<lambda>w. totalFrames cfg \<le> frame (heap w r)) (untouched r) (run R P html cfg)"
    by (rule run_keeps[OF stepsOk_untouched])
  with assms have "untouched r (newWorld h k) w'"
    unfolding keeps_def by (simp add: newWorld_def)
  then show ?thesis by (simp add: untouched_def newWorld_def)
qed

lemma resolve_Inr: "resolve a w = (Inr b, w') \<longleftrightarrow> b = a \<and> w' = w"
  by (auto simp: resolve_def)

lemma collectMetadata_meta:
  "collectMetadata R cfg anns w = (Inr m, w') \<Longrightarrow>
   metaInterventions m = configInterventions cfg \<and> frameAnnotations m = anns \<and> heap w' = heap w"
  by (auto simp: collectMetadata_def andThen_Inr resolve_Inr throw_def configInterventions_def
           split: if_splits dest!: await_Inr)

lemma afterSeed_written:
  assumes "afterSeed R P cfg dir w = (Inr m, w')"
  shows "\<exists>tr. trace w' = tr @ [WriteFile (join P (outputDir cfg) ''metadata.json'')
                                  (MetadataJson (stringify (heap w') m))] \<and>
              metaInterventions m = configInterventions cfg"
proof -
  from assms obtain anns w7 m1 w8 u w9 where
    c: "collectMetadata R cfg anns w7 = (Inr m1, w8)" and
    a: "await ArtifactWriteFailure
          [WriteFile (join P (outputDir cfg) ''metadata.json'')
                     (MetadataJson (stringify (heap w8) m1))] (\<lambda>_. ()) w8 = (Inr u, w9)" and
    r: "resolve m1 w9 = (Inr m, w')"
    unfolding afterSeed_def andThen_Inr by blast
  from r have e: "m = m1" "w' = w9" by (simp_all add: resolve_Inr)
  from await_Inr[OF a] have t: "trace w9 = trace w8 @ [WriteFile (join P (outputDir cfg) ''metadata.json'')
                     (MetadataJson (stringify (heap w8) m1))]" and h: "heap w9 = heap w8" by simp_all
  show ?thesis using e t h collectMetadata_meta[OF c] by auto
qed

lemma run_written:
  assumes "run R P html cfg w = (Inr m, w')"
  shows "\<exists>tr. trace w' = tr @ [WriteFile (join P (outputDir cfg) ''metadata.json'')
                                  (MetadataJson (stringify (heap w') m))] \<and>
              metaInterventions m = configInterventions cfg"
proof -
  from assms obtain w4 where "afterSeed R P cfg (join P (outputDir cfg) ''frames'') w4 = (Inr m, w')"
    unfolding run_split andThen_Inr by blast
  then show ?thesis by (rule afterSeed_written)
qed

text \<open>
  C10. An intervention of the job whose frame is at or beyond \<open>totalFrames\<close> is never
  applied, whatever the outcome of the run, and its object is left as it was (so no
  \<open>simulationTime\<close> is recorded on it). When the run resolves, the last call is the write
  of \<open>metadata.json\<close>, and the \<open>interventions\<close> array of that document holds the
  unchanged object at each position the intervention has in \<open>config.interventions\<close>.
\<close>

theorem late_intervention_unapplied_but_persisted:
  assumes "r \<in> set (configInterventions cfg)" and "totalFrames cfg \<le> frame (h r)"
    and "run R P html cfg (newWorld h k) = (res, w')"
  shows "r \<notin> set (appliedRefs (trace w')) \<and> heap w' r = h r \<and>
         (\<forall>m. res = Inr m \<longrightarrow>
            (\<exists>tr doc. trace w' = tr @ [WriteFile (join P (outputDir cfg) ''metadata.json'')
                                          (MetadataJson doc)] \<and>
                      length (metaInterventions doc) = length (configInterventions cfg) \<and>
                      (\<forall>i < length (configInterventions cfg).
                          configInterventions cfg ! i = r \<longrightarrow> metaInterventions doc ! i = h r)))"
proof -
  note u = run_untouched[OF assms(2,3)]
  {
    fix m assume "res = Inr m"
    with assms(3) run_written[of R P html cfg "newWorld h k" m w'] obtain tr where
      t: "trace w' = tr @ [WriteFile (join P (outputDir cfg) ''metadata.json'')
                                  (MetadataJson (stringify (heap w') m))]"
      and mi: "metaInterventions m = configInterventions cfg" by auto
    have "metaInterventions (stringify (heap w') m) = map (heap w') (configInterventions cfg)"
      by (simp add: stringify_def mi)
    then have "length (metaInterventions (stringify (heap w') m)) = length (configInterventions cfg) \<and>
          (\<forall>i < length (configInterventions cfg).
              configInterventions cfg ! i = r \<longrightarrow> metaInterventions (stringify (heap w') m) ! i = h r)"
      using u by simp
    with t have "\<exists>tr doc. trace w' = tr @ [WriteFile (join P (outputDir cfg) ''metadata.json'')
                                          (MetadataJson doc)] \<and>
                      length (metaInterventions doc) = length (configInterventions cfg) \<and>
                      (\<forall>i < length (configInterventions cfg).
                          configInterventions cfg ! i = r \<longrightarrow> metaInterventions doc ! i = h r)"
      by blast
  }
  with u show ?thesis by blast
qed

theorem late_intervention_unapplied_but_persisted_witness:
  "5 \<in> set (configInterventions sampleConfig) \<and>
   totalFrames sampleConfig \<le> frame (sampleStore 5) \<and>
   resolved (fst (run sampleRenderer samplePaths ''index.html'' sampleConfig (newWorld sampleStore None))) \<and>
   5 \<notin> set (appliedRefs (trace (snd (run sampleRenderer samplePaths ''index.html'' sampleConfig
                                         (newWorld sampleStore None))))) \<and>
   heap (snd (run sampleRenderer samplePaths ''index.html'' sampleConfig (newWorld sampleStore None))) 5
     = sampleStore 5 \<and>
   (\<exists>tr doc. trace (snd (run sampleRenderer samplePaths ''index.html'' sampleConfig
                            (newWorld sampleStore None)))
              = tr @ [WriteFile (join samplePaths (outputDir sampleConfig) ''metadata.json'')
                        (MetadataJson doc)] \<and>
             metaInterventions doc ! 2 = sampleStore 5)"
proof -
  define rn where "rn = run sampleRenderer samplePaths ''index.html'' sampleConfig (newWorld sampleStore None)"
  have h1: "5 \<in> set (configInterventions sampleConfig)"
    by (simp add: configInterventions_def sampleConfig_def)
  have h2: "totalFrames sampleConfig \<le> frame (sampleStore 5)"
    by (simp add: sampleConfig_def sampleStore_def)
  have c: "configInterventions sampleConfig = [1, 0, 5]"
    by (simp add: configInterventions_def sampleConfig_def)
  have r: "resolved (fst rn)" unfolding rn_def by code_simp
  then obtain m where m: "fst rn = Inr m" by (cases "fst rn") (simp_all add: resolved_def)
  have h3: "run sampleRenderer samplePaths ''index.html'' sampleConfig (newWorld sampleStore None)
             = (fst rn, snd rn)" by (simp add: rn_def)
  note T = late_intervention_unapplied_but_persisted[OF h1 h2 h3]
  from T have a: "5 \<notin> set (appliedRefs (trace (snd rn)))" "heap (snd rn) 5 = sampleStore 5"
    by simp_all
  from T m obtain tr doc where
    d: "trace (snd rn) = tr @ [WriteFile (join samplePaths (outputDir sampleConfig) ''metadata.json'')
                                          (MetadataJson doc)]"
       "\<forall>i < length (configInterventions sampleConfig).
           configInterventions sampleConfig ! i = 5 \<longrightarrow> metaInterventions doc ! i = sampleStore 5"
    by blast
  from d(2) have "metaInterventions doc ! 2 = sampleStore 5" unfolding c by simp
  with d(1) have "\<exists>tr doc. trace (snd rn)
              = tr @ [WriteFile (join samplePaths (outputDir sampleConfig) ''metadata.json'')
                        (MetadataJson doc)] \<and>
             metaInterventions doc ! 2 = sampleStore 5" by blast
  with h1 h2 r a show ?thesis unfolding rn_def by blast
qed

lemma andThen_await_cases:
  assumes "andThen (await e evs ans) f w = (res, w')"
  obtains (rejected) "res = Inl e" "w' = w"
  | (resolved) k where "f (ans (trace w)) (w\<lparr>trace := trace w @ evs, failAfter := k\<rparr>) = (res, w')"
proof (cases rule: await_result[of e evs ans w])
  case rejected
  with assms have "res = Inl e" "w' = w" by (simp_all add: andThen_def)
  then show ?thesis by (rule that(1))
next
  case (resolved k)
  with assms have "f (ans (trace w)) (w\<lparr>trace := trace w @ evs, failAfter := k\<rparr>) = (res, w')"
    by (simp add: andThen_def)
  then show ?thesis by (rule that(2))
qed

lemma seed_prefix:
  assumes "tr = [a, b, c, SetSeed seed] @ new"
    and "\<not> isConfigStep a" "\<not> isConfigStep b" "\<not> isConfigStep c"
  shows "\<forall>i < length tr. isConfigStep (tr ! i) \<longrightarrow> (\<exists>j < i. tr ! j = SetSeed seed)"
proof (intro allI impI)
  fix i assume "i < length tr" and cs: "isConfigStep (tr ! i)"
  have "3 < i"
  proof (rule ccontr)
    assume "\<not> 3 < i"
    then have "i = 0 \<or> i = 1 \<or> i = 2 \<or> i = 3" by arith
    with cs assms show False by (auto simp: nth_Cons')
  qed
  moreover have "tr ! 3 = SetSeed seed" using assms(1) by (simp add: nth_Cons' numeral_3_eq_3)
  ultimately show "\<exists>j < i. tr ! j = SetSeed seed" by blast
qed

text \<open>
  C7. When the job has a \<open>randomSeed\<close>, every call that sets an option, recomputes the
  derived parameters (\<open>updateProblem\<close>) or resets the simulation comes, in the log of the
  run, strictly after the injection of the seed; this holds for every outcome of the
  run. (The page load and the wait for readiness come before the seed.)
\<close>

theorem seed_before_configuration:
  assumes "randomSeed cfg = Some seed" and "run R P html cfg (newWorld h k) = (res, w')"
  shows "\<forall>i < length (trace w'). isConfigStep (trace w' ! i) \<longrightarrow>
           (\<exists>j < i. trace w' ! j = SetSeed seed)"
proof -
  define w0 where "w0 = newWorld h k"
  define dir where "dir = join P (outputDir cfg) ''frames''"
  have t0: "trace w0 = []" by (simp add: w0_def newWorld_def)
  have ss: "seedStep cfg = await RemoteCallFailure [SetSeed seed] (\<lambda>_. ())"
    using assms(1) by (simp add: seedStep_def)
  from assms(2) have e0: "andThen (await ArtifactWriteFailure [Mkdir dir] (\<lambda>_. ())) (\<lambda>_.
     andThen (await LoadTimeout [Goto html (preset cfg)] (\<lambda>_. ())) (\<lambda>_.
     andThen (await LoadTimeout [WaitForReady] (\<lambda>_. ())) (\<lambda>_.
     andThen (await RemoteCallFailure [SetSeed seed] (\<lambda>_. ())) (\<lambda>_.
     afterSeed R P cfg dir)))) w0 = (res, w')"
    unfolding run_split ss w0_def dir_def .
  from e0 show ?thesis
  proof (cases rule: andThen_await_cases)
    case rejected
    then show ?thesis using t0 by simp
  next
    case (resolved k1)
    define w1 where "w1 = w0\<lparr>trace := trace w0 @ [Mkdir dir], failAfter := k1\<rparr>"
    have t1: "trace w1 = [Mkdir dir]" by (simp add: w1_def t0)
    from resolved[folded w1_def] show ?thesis
    proof (cases rule: andThen_await_cases)
      case rejected
      then show ?thesis using t1 by simp
    next
      case (resolved k2)
      define w2 where "w2 = w1\<lparr>trace := trace w1 @ [Goto html (preset cfg)], failAfter := k2\<rparr>"
      have t2: "trace w2 = [Mkdir dir, Goto html (preset cfg)]" by (simp add: w2_def t1)
      from resolved[folded w2_def] show ?thesis
      proof (cases rule: andThen_await_cases)
        case rejected
        then show ?thesis using t2 by (simp add: nth_Cons')
      next
        case (resolved k3)
        define w3 where "w3 = w2\<lparr>trace := trace w2 @ [WaitForReady], failAfter := k3\<rparr>"
        have t3: "trace w3 = [Mkdir dir, Goto html (preset cfg), WaitForReady]" by (simp add: w3_def t2)
        from resolved[folded w3_def] show ?thesis
        proof (cases rule: andThen_await_cases)
          case rejected
          then show ?thesis using t3 by (simp add: nth_Cons')
        next
          case (resolved k4)
          define w4 where "w4 = w3\<lparr>trace := trace w3 @ [SetSeed seed], failAfter := k4\<rparr>"
          have t4: "trace w4 = [Mkdir dir, Goto html (preset cfg), WaitForReady, SetSeed seed]"
            by (simp add: w4_def t3)
          have "keeps (\<lambda>w. True) extends (afterSeed R P cfg dir)"
            by (rule afterSeed_keeps[OF stepsOk_extends])
          with resolved[folded w4_def] have "extends w4 w'" unfolding keeps_def by blast
          then obtain new where "trace w' = [Mkdir dir, Goto html (preset cfg), WaitForReady, SetSeed seed] @ new"
            unfolding extends_def t4 by blast
          then show ?thesis by (rule seed_prefix) simp_all
        qed
      qed
    qed
  qed
qed

theorem seed_before_configuration_witness:
  "randomSeed sampleConfig = Some 42 \<and>
   isConfigStep (trace (snd (run sampleRenderer samplePaths ''index.html'' sampleConfig
                               (newWorld sampleStore None))) ! 4) \<and>
   (\<exists>j < 4. trace (snd (run sampleRenderer samplePaths ''index.html'' sampleConfig
                           (newWorld sampleStore None))) ! j = SetSeed 42)"
proof -
  define rn where "rn = run sampleRenderer samplePaths ''index.html'' sampleConfig (newWorld sampleStore None)"
  have h1: "randomSeed sampleConfig = Some 42" by (simp add: sampleConfig_def)
  have h2: "run sampleRenderer samplePaths ''index.html'' sampleConfig (newWorld sampleStore None)
             = (fst rn, snd rn)" by (simp add: rn_def)
  have l: "4 < length (trace (snd rn))" unfolding rn_def by code_simp
  have c: "isConfigStep (trace (snd rn) ! 4)" unfolding rn_def by code_simp
  from seed_before_configuration[OF h1 h2] l c
  have "\<exists>j < 4. trace (snd rn) ! j = SetSeed 42" by blast
  with h1 c show ?thesis unfolding rn_def by blast
qed

section \<open>Properties of the session runner: the frames written\<close>

lemma frameWrites_append: "frameWrites (xs @ ys) = frameWrites xs @ frameWrites ys"
  by (induction xs rule: frameWrites.induct) auto

lemma digitValue_digitChar: "d < 10 \<Longrightarrow> digitValue (digitChar d) = d"
  by (simp add: digitValue_def digitChar_def)

lemma isDigit_digitChar: "d < 10 \<Longrightarrow> isDigit (digitChar d)"
  by (simp add: isDigit_def digitChar_def)

lemma decimalValue_snoc: "decimalValue (xs @ [c]) = 10 * decimalValue xs + digitValue c"
  by (simp add: decimalValue_def)

lemma decimalValue_natString: "decimalValue (natString n) = n"
proof (induction n rule: natString.induct)
  case (1 n)
  show ?case
  proof (cases "n < 10")
    case True
    then show ?thesis
      by (subst natString.simps) (simp add: decimalValue_def digitValue_digitChar)
  next
    case False
    then have "decimalValue (natString (n div 10)) = n div 10" using "1.IH" by simp
    with False show ?thesis
      by (subst natString.simps) (simp add: decimalValue_snoc digitValue_digitChar)
  qed
qed

lemma isDigit_natString: "\<forall>c \<in> set (natString n). isDigit c"
proof (induction n rule: natString.induct)
  case (1 n)
  show ?case
  proof (cases "n < 10")
    case True
    then show ?thesis by (subst natString.simps) (simp add: isDigit_digitChar)
  next
    case False
    with "1.IH" show ?thesis by (subst natString.simps) (simp add: isDigit_digitChar)
  qed
qed

lemma length_natString: "n < 10 ^ k \<Longrightarrow> 0 < k \<Longrightarrow> length (natString n) \<le> k"
proof (induction n arbitrary: k rule: natString.induct)
  case (1 n)
  show ?case
  proof (cases "n < 10")
    case True
    with "1.prems" show ?thesis by (subst natString.simps) simp
  next
    case False
    obtain k' where k: "k = Suc k'" using "1.prems"(2) by (cases k) auto
    have "k' \<noteq> 0" using False "1.prems"(1) k by (cases k') auto
    moreover have "n div 10 < 10 ^ k'" using "1.prems"(1) k by (simp add: less_mult_imp_div_less mult.commute)
    ultimately have "length (natString (n div 10)) \<le> k'" using "1.IH"[OF False, of k'] by simp
    with False k show ?thesis by (subst natString.simps) simp
  qed
qed

lemma decimalValue_zeros: "decimalValue (replicate k (CHR ''0'') @ s) = decimalValue s"
proof -
  have "foldl (\<lambda>a c. 10 * a + digitValue c) 0 (replicate k (CHR ''0'')) = 0"
    by (induction k) (simp_all add: digitValue_def)
  then show ?thesis by (simp add: decimalValue_def)
qed

lemma decimalValue_padStart: "decimalValue (padStart n (CHR ''0'') (natString i)) = i"
  by (simp add: padStart_def decimalValue_zeros decimalValue_natString)

lemma frameFilename_nat: "frameFilename (int i) = padStart 6 (CHR ''0'') (natString i) @ ''.png''"
  by (simp add: frameFilename_def String_def)

lemma frameFilename_inj: "frameFilename (int i) = frameFilename (int j) \<Longrightarrow> i = j"
proof -
  assume "frameFilename (int i) = frameFilename (int j)"
  then have "padStart 6 (CHR ''0'') (natString i) = padStart 6 (CHR ''0'') (natString j)"
    unfolding frameFilename_nat by simp
  then have "decimalValue (padStart 6 (CHR ''0'') (natString i))
           = decimalValue (padStart 6 (CHR ''0'') (natString j))" by simp
  then show "i = j" by (simp add: decimalValue_padStart)
qed

lemma distinct_frameFilenames: "distinct (map (\<lambda>i. frameFilename (int i)) [0..<n])"
  by (simp add: distinct_map inj_on_def frameFilename_inj)

lemma isDigit_zero: "isDigit (CHR ''0'')"
  by (simp add: isDigit_def)

lemma sixDigits_frameFilename:
  assumes "i < 1000000"
  shows "sixDigits i (frameFilename (int i))"
proof -
  have "i < 10 ^ 6" using assms by simp
  then have l: "length (natString i) \<le> 6" by (rule length_natString) simp
  define p where "p = padStart 6 (CHR ''0'') (natString i)"
  have lp: "length p = 6" using l by (simp add: p_def padStart_def)
  have dp: "\<forall>c \<in> set p. isDigit c"
    using isDigit_natString[of i] by (auto simp: p_def padStart_def isDigit_zero)
  have vp: "decimalValue p = i" by (simp add: p_def decimalValue_padStart)
  have f: "frameFilename (int i) = p @ ''.png''" by (simp add: frameFilename_nat p_def)
  show ?thesis unfolding sixDigits_def f using lp dp vp by simp
qed

lemma applyOne_cases:
  assumes "applyOne R q w = (res, w')"
  obtains (none) "res = Inl RemoteCallFailure" "w' = w"
  | (brushed) k where "res = Inl RemoteCallFailure"
      "w' = w\<lparr>trace := trace w @ [brushEvent (heap w) q], failAfter := k\<rparr>"
  | (applied) k where "res = Inr ()"
      "w' = w\<lparr>trace := trace w @ [brushEvent (heap w) q, GetTime], failAfter := k,
             heap := (heap w)(q := (heap w q)\<lparr>simulationTime :=
                        Some (getTime R (trace w @ [brushEvent (heap w) q]))\<rparr>)\<rparr>"
proof -
  define ev where "ev = brushEvent (heap w) q"
  have ai: "applyIntervention q w = await RemoteCallFailure [ev] (\<lambda>_. ()) w"
    by (cases "itype (heap w q)") (simp add: applyIntervention_def Let_def ev_def brushEvent_def)
  from assms have e: "andThen (await RemoteCallFailure [ev] (\<lambda>_. ())) (\<lambda>_.
     andThen (await RemoteCallFailure [GetTime] (getTime R)) (\<lambda>simTime.
     setSimulationTime q simTime)) w = (res, w')"
    by (simp add: applyOne_def andThen_def ai)
  from e show ?thesis
  proof (cases rule: andThen_await_cases)
    case rejected
    then show ?thesis by (rule none)
  next
    case (resolved k1)
    define w1 where "w1 = w\<lparr>trace := trace w @ [ev], failAfter := k1\<rparr>"
    from resolved[folded w1_def] show ?thesis
    proof (cases rule: andThen_await_cases)
      case rejected
      then show ?thesis using brushed[of k1] by (simp add: w1_def ev_def)
    next
      case (resolved k2)
      then have "res = Inr ()" "w' = w\<lparr>trace := trace w @ [brushEvent (heap w) q, GetTime], failAfter := k2,
             heap := (heap w)(q := (heap w q)\<lparr>simulationTime :=
                        Some (getTime R (trace w @ [brushEvent (heap w) q]))\<rparr>)\<rparr>"
        by (auto simp: setSimulationTime_def w1_def ev_def)
      then show ?thesis by (rule applied)
    qed
  qed
qed

lemma frameWrites_brush [simp]: "frameWrites [brushEvent h q] = []" "frameWrites [brushEvent h q, GetTime] = []"
  by (simp_all add: brushEvent_def Let_def)

lemma applyOne_sameFrames: "applyOne R q w = (res, w') \<Longrightarrow> sameFrames w w'"
  by (erule applyOne_cases) (simp_all add: sameFrames_def frameWrites_append)

lemma passes_sameFrames: "passes (\<lambda>w. True) sameFrames"
  by (simp add: passes_def sameFrames_def)

lemma applyScheduled_sameFrames:
  "applyScheduled R ivs fr i w = (res, w') \<Longrightarrow> frameWrites (trace w') = frameWrites (trace w)"
proof -
  have "keeps (\<lambda>w. True) sameFrames (applyScheduled R ivs fr i)"
    by (rule applyScheduled_keeps[OF passes_sameFrames]) (rule applyOne_sameFrames)
  then show "applyScheduled R ivs fr i w = (res, w') \<Longrightarrow> frameWrites (trace w') = frameWrites (trace w)"
    by (auto simp: keeps_def sameFrames_def)
qed

lemma captureStep_Inr:
  assumes "captureStep R P cfg dir ivs fr w = (Inr a, w')"
  shows "\<exists>d. trace w' = trace w @ [StepN (timestepsPerFrame cfg), Render, CaptureFrame,
                                 WriteFile (join P dir (frameFilename fr)) (Png d), GetTime]"
    and "heap w' = heap w"
proof -
  from assms obtain u1 w1 d w2 u3 w3 t w4 where
    s1: "await RemoteCallFailure [StepN (timestepsPerFrame cfg), Render] (\<lambda>_. ()) w = (Inr u1, w1)" and
    s2: "await RemoteCallFailure [CaptureFrame] (captureFrame R) w1 = (Inr d, w2)" and
    s3: "saveFrame P d dir fr w2 = (Inr u3, w3)" and
    s4: "await RemoteCallFailure [GetTime] (getTime R) w3 = (Inr t, w4)" and
    s5: "w' = w4"
    unfolding captureStep_def andThen_Inr resolve_Inr by blast
  note a1 = await_Inr[OF s1] and a2 = await_Inr[OF s2]
    and a3 = await_Inr[OF s3[unfolded saveFrame_def Let_def]] and a4 = await_Inr[OF s4]
  show "heap w' = heap w" using a1 a2 a3 a4 s5 by simp
  show "\<exists>d. trace w' = trace w @ [StepN (timestepsPerFrame cfg), Render, CaptureFrame,
                                 WriteFile (join P dir (frameFilename fr)) (Png d), GetTime]"
    using a1 a2 a3 a4 s5 by simp
qed

lemma frameLoop_frames:
  "frameLoop R P cfg dir ivs fr i anns w = (Inr anns', w') \<Longrightarrow> 0 \<le> fr \<Longrightarrow>
   frameWrites (trace w') =
     frameWrites (trace w) @ map (\<lambda>n. join P dir (frameFilename (int n))) [nat fr..<nat (totalFrames cfg)]"
proof (induction n \<equiv> "nat (totalFrames cfg - fr)" arbitrary: fr i anns w)
  case 0
  then have "\<not> fr < totalFrames cfg" by simp
  with "0.prems" show ?case by (simp add: frameLoop_unfold[of R P cfg dir ivs fr i anns])
next
  case (Suc n)
  then have n: "n = nat (totalFrames cfg - (fr + 1))" and lt: "fr < totalFrames cfg" by simp_all
  from Suc.prems(1) lt obtain i1 a w2 where
    b: "andThen (applyScheduled R ivs fr i) (\<lambda>i.
              andThen (captureStep R P cfg dir ivs fr) (\<lambda>a. resolve (i, a))) w = (Inr (i1, a), w2)" and
    r: "frameLoop R P cfg dir ivs (fr + 1) i1 (anns @ [a]) w2 = (Inr anns', w')"
    by (subst (asm) frameLoop_unfold) (auto split: prod.splits sum.splits)
  from b obtain w1 where
    s: "applyScheduled R ivs fr i w = (Inr i1, w1)" and c: "captureStep R P cfg dir ivs fr w1 = (Inr a, w2)"
    unfolding andThen_Inr resolve_Inr by blast
  from captureStep_Inr(1)[OF c] obtain d where
    t: "trace w2 = trace w1 @ [StepN (timestepsPerFrame cfg), Render, CaptureFrame,
                                 WriteFile (join P dir (frameFilename fr)) (Png d), GetTime]" by blast
  have f2: "frameWrites (trace w2) = frameWrites (trace w) @ [join P dir (frameFilename fr)]"
    using applyScheduled_sameFrames[OF s] t by (simp add: frameWrites_append)
  have fr1: "0 \<le> fr + 1" using Suc.prems(2) by simp
  have u: "[nat fr..<nat (totalFrames cfg)] = nat fr # [nat (fr + 1)..<nat (totalFrames cfg)]"
    using lt Suc.prems(2) by (simp add: upt_conv_Cons nat_add_distrib)
  have nm: "frameFilename fr = frameFilename (int (nat fr))" using Suc.prems(2) by simp
  from Suc.hyps(1)[OF n r fr1] f2 show ?case unfolding u nm by simp
qed

lemma quiet_frameWrites: "\<forall>e \<in> set evs. isQuiet e \<Longrightarrow> frameWrites evs = []"
  by (induction evs rule: frameWrites.induct) auto

lemma quiet_appliedRefs: "\<forall>e \<in> set evs. isQuiet e \<Longrightarrow> appliedRefs evs = []"
  by (induction evs rule: appliedRefs.induct) auto

lemma quiet_stepsIn: "\<forall>e \<in> set evs. isQuiet e \<Longrightarrow> stepsIn evs = 0"
  unfolding stepsIn_def by (induction evs) (auto elim: isQuiet.elims)

lemma stepsIn_append: "stepsIn (xs @ ys) = stepsIn xs + stepsIn ys"
  by (simp add: stepsIn_def)

lemma quiet_setOptions: "\<forall>e \<in> set (map (\<lambda>(key, v). SetOption key v) opts @ [UpdateProblem]). isQuiet e"
  by (auto simp: split_def)

lemma seedStep_Inr:
  "seedStep cfg w = (Inr u, w') \<Longrightarrow>
   \<exists>evs. trace w' = trace w @ evs \<and> (\<forall>e \<in> set evs. isQuiet e) \<and> heap w' = heap w"
  by (cases "randomSeed cfg") (auto simp: seedStep_def resolve_Inr dest!: await_Inr)

lemma optionsStep_Inr:
  assumes "(case options cfg of
                    None \<Rightarrow> resolve ()
                  | Some opts \<Rightarrow>
                      if length opts > 0
                      then await RemoteCallFailure
                             (map (\<lambda>(key, v). SetOption key v) opts @ [UpdateProblem]) (\<lambda>_. ())
                      else resolve ()) w = (Inr u, w')"
  shows "\<exists>evs. trace w' = trace w @ evs \<and> (\<forall>e \<in> set evs. isQuiet e) \<and> heap w' = heap w"
proof (cases "options cfg")
  case None
  with assms show ?thesis by (simp add: resolve_Inr)
next
  case (Some opts)
  show ?thesis
  proof (cases "length opts > 0")
    case True
    with assms Some have "await RemoteCallFailure
                             (map (\<lambda>(key, v). SetOption key v) opts @ [UpdateProblem]) (\<lambda>_. ()) w = (Inr u, w')"
      by simp
    from await_Inr[OF this] quiet_setOptions[of opts] show ?thesis by blast
  next
    case False
    with assms Some show ?thesis by (simp add: resolve_Inr)
  qed
qed

lemma collectMetadata_Inr:
  "collectMetadata R cfg anns w = (Inr m, w') \<Longrightarrow>
   \<exists>opts w1 t. await RemoteCallFailure [GetOptions] (getOptions R) w = (Inr opts, w1) \<and>
             await RemoteCallFailure [GetTime] (getTime R) w1 = (Inr t, w')"
  by (auto simp: collectMetadata_def andThen_Inr resolve_Inr throw_def split: if_splits)

lemma run_Inr_shape:
  assumes "run R P html cfg w = (Inr m, w')"
  shows "\<exists>pre w6 anns w7 post.
           trace w6 = trace w @ pre \<and> heap w6 = heap w \<and> (\<forall>e \<in> set pre. isQuiet e) \<and>
           frameLoop R P cfg (join P (outputDir cfg) ''frames'') (sortedInterventions (heap w) cfg)
             0 0 [] w6 = (Inr anns, w7) \<and>
           trace w' = trace w7 @ post \<and> heap w' = heap w7 \<and> (\<forall>e \<in> set post. isQuiet e) \<and>
           frameAnnotations m = anns"
proof -
  define dir where "dir = join P (outputDir cfg) ''frames''"
  from assms obtain u1 w1 u2 w2 u3 w3 u4 w4 where
    s1: "await ArtifactWriteFailure [Mkdir dir] (\<lambda>_. ()) w = (Inr u1, w1)" and
    s2: "await LoadTimeout [Goto html (preset cfg)] (\<lambda>_. ()) w1 = (Inr u2, w2)" and
    s3: "await LoadTimeout [WaitForReady] (\<lambda>_. ()) w2 = (Inr u3, w3)" and
    s4: "seedStep cfg w3 = (Inr u4, w4)" and
    s5: "afterSeed R P cfg dir w4 = (Inr m, w')"
    unfolding run_split andThen_Inr dir_def by blast
  from s5 obtain u5 w5 u6 w6 anns w7 m1 w8 u9 w9 where
    t1: "(case options cfg of
                    None \<Rightarrow> resolve ()
                  | Some opts \<Rightarrow>
                      if length opts > 0
                      then await RemoteCallFailure
                             (map (\<lambda>(key, v). SetOption key v) opts @ [UpdateProblem]) (\<lambda>_. ())
                      else resolve ()) w4 = (Inr u5, w5)" and
    t2: "await RemoteCallFailure [Reset] (\<lambda>_. ()) w5 = (Inr u6, w6)" and
    t3: "frameLoop R P cfg dir (sortedInterventions (heap w6) cfg) 0 0 [] w6 = (Inr anns, w7)" and
    t4: "collectMetadata R cfg anns w7 = (Inr m1, w8)" and
    t5: "await ArtifactWriteFailure
                         [WriteFile (join P (outputDir cfg) ''metadata.json'')
                                    (MetadataJson (stringify (heap w8) m1))] (\<lambda>_. ()) w8 = (Inr u9, w9)" and
    t6: "resolve m1 w9 = (Inr m, w')"
    unfolding afterSeed_def andThen_Inr by blast
  note a1 = await_Inr[OF s1] and a2 = await_Inr[OF s2] and a3 = await_Inr[OF s3]
  from seedStep_Inr[OF s4] obtain e4 where
    a4: "trace w4 = trace w3 @ e4" "\<forall>e \<in> set e4. isQuiet e" "heap w4 = heap w3" by blast
  from optionsStep_Inr[OF t1] obtain e5 where
    a5: "trace w5 = trace w4 @ e5" "\<forall>e \<in> set e5. isQuiet e" "heap w5 = heap w4" by blast
  note a6 = await_Inr[OF t2]
  have pre: "trace w6 = trace w @ ([Mkdir dir, Goto html (preset cfg), WaitForReady] @ e4 @ e5 @ [Reset])"
    using a1 a2 a3 a4 a5 a6 by simp
  have preq: "\<forall>e \<in> set ([Mkdir dir, Goto html (preset cfg), WaitForReady] @ e4 @ e5 @ [Reset]). isQuiet e"
    using a4(2) a5(2) by auto
  have h6: "heap w6 = heap w" using a1 a2 a3 a4 a5 a6 by simp
  from t4 obtain o8 w7a t8 where
    c1: "await RemoteCallFailure [GetOptions] (getOptions R) w7 = (Inr o8, w7a)" and
    c2: "await RemoteCallFailure [GetTime] (getTime R) w7a = (Inr t8, w8)"
    using collectMetadata_Inr by blast
  note b1 = await_Inr[OF c1] and b2 = await_Inr[OF c2] and b3 = await_Inr[OF t5]
  have e9: "m = m1" "w' = w9" using t6 by (simp_all add: resolve_Inr)
  have post: "trace w' = trace w7 @ [GetOptions, GetTime, WriteFile (join P (outputDir cfg) ''metadata.json'')
                                    (MetadataJson (stringify (heap w8) m1))]"
    using b1 b2 b3 e9 by simp
  have h9: "heap w' = heap w7" using b1 b2 b3 e9 by simp
  have fa: "frameAnnotations m = anns" using collectMetadata_meta[OF t4] e9 by simp
  show ?thesis
    apply (rule exI[of _ "[Mkdir dir, Goto html (preset cfg), WaitForReady] @ e4 @ e5 @ [Reset]"])
    apply (rule exI[of _ w6])
    apply (rule exI[of _ anns])
    apply (rule exI[of _ w7])
    apply (rule exI[of _ "[GetOptions, GetTime, WriteFile (join P (outputDir cfg) ''metadata.json'')
                                    (MetadataJson (stringify (heap w8) m1))]"])
    apply (intro conjI)
    subgoal by (rule pre)
    subgoal by (rule h6)
    subgoal by (rule preq)
    subgoal using t3 h6 by (simp add: dir_def)
    subgoal by (rule post)
    subgoal by (rule h9)
    subgoal by simp
    subgoal by (rule fa)
    done
qed

lemma hoareI:
  "(\<And>w r w'. P w \<Longrightarrow> m w = (r, w') \<Longrightarrow> (case r of Inl e \<Rightarrow> E w' | Inr a \<Rightarrow> S a w')) \<Longrightarrow> hoare P m E S"
  by (simp add: hoare_def)

lemma hoareD:
  "hoare P m E S \<Longrightarrow> P w \<Longrightarrow> m w = (r, w') \<Longrightarrow> (case r of Inl e \<Rightarrow> E w' | Inr a \<Rightarrow> S a w')"
  by (simp add: hoare_def)

lemma hoare_andThen:
  assumes "hoare P m E S1" and "\<And>a. hoare (S1 a) (f a) E S"
  shows "hoare P (andThen m f) E S"
proof (rule hoareI)
  fix w r w' assume p: "P w" and e: "andThen m f w = (r, w')"
  obtain r1 w1 where m: "m w = (r1, w1)" by (cases "m w")
  note d = hoareD[OF assms(1) p m]
  show "case r of Inl e \<Rightarrow> E w' | Inr a \<Rightarrow> S a w'"
  proof (cases r1)
    case (Inl x)
    with e m have "r = Inl x" "w' = w1" by (simp_all add: andThen_def)
    with d Inl show ?thesis by simp
  next
    case (Inr a)
    with e m have "f a w1 = (r, w')" by (simp add: andThen_def)
    moreover have "S1 a w1" using d Inr by simp
    ultimately show ?thesis using hoareD[OF assms(2)] by blast
  qed
qed

lemma hoare_await:
  assumes "\<And>w. P w \<Longrightarrow> E w"
    and "\<And>w k. P w \<Longrightarrow> S (ans (trace w)) (w\<lparr>trace := trace w @ evs, failAfter := k\<rparr>)"
  shows "hoare P (await e evs ans) E S"
proof (rule hoareI)
  fix w r w' assume p: "P w" and e: "await e evs ans w = (r, w')"
  show "case r of Inl e \<Rightarrow> E w' | Inr a \<Rightarrow> S a w'"
  proof (cases rule: await_result[of e evs ans w])
    case rejected
    with e assms(1)[OF p] show ?thesis by auto
  next
    case (resolved k)
    with e assms(2)[OF p, of k] show ?thesis by auto
  qed
qed

lemma hoare_resolve: "(\<And>w. P w \<Longrightarrow> S a w) \<Longrightarrow> hoare P (resolve a) E S"
  by (auto simp: hoare_def resolve_def)


lemma natString_nonempty: "natString n \<noteq> []"
  by (subst natString.simps) simp

lemma digitChar_nonzero: "0 < d \<Longrightarrow> d < 10 \<Longrightarrow> digitChar d \<noteq> CHR ''0''"
proof
  assume d: "0 < d" "d < 10" and e: "digitChar d = CHR ''0''"
  have "(of_char (digitChar d) :: nat) = 48 + d" using d by (simp add: digitChar_def)
  moreover have "(of_char (CHR ''0'') :: nat) = 48" by simp
  ultimately show False using e d by simp
qed

lemma hd_natString: "0 < n \<Longrightarrow> hd (natString n) \<noteq> CHR ''0''"
proof (induction n rule: natString.induct)
  case (1 n)
  show ?case
  proof (cases "n < 10")
    case True
    with "1.prems" show ?thesis by (subst natString.simps) (simp add: digitChar_nonzero)
  next
    case False
    then have "0 < n div 10" by simp
    with "1.IH" False have "hd (natString (n div 10)) \<noteq> CHR ''0''" by simp
    with False show ?thesis by (subst natString.simps) (simp add: natString_nonempty)
  qed
qed

lemma length_natString_one: "n < 10 \<Longrightarrow> length (natString n) = 1"
  by (subst natString.simps) simp

lemma zeroPadded_frameFilename: "zeroPadded i (frameFilename (int i))"
proof -
  define p where "p = padStart 6 (CHR ''0'') (natString i)"
  have f: "frameFilename (int i) = p @ ''.png''" by (simp add: frameFilename_nat p_def)
  have st: "stem (p @ ''.png'') = p" by (simp add: stem_def)
  have lp: "6 \<le> length p" by (simp add: p_def padStart_def)
  have dp: "\<forall>c \<in> set p. isDigit c"
    using isDigit_natString[of i] by (auto simp: p_def padStart_def isDigit_zero)
  have vp: "decimalValue p = i" by (simp add: p_def decimalValue_padStart)
  have hp: "hd p \<noteq> CHR ''0''" if "6 < length p"
  proof -
    have l: "6 < length (natString i)" using that by (simp add: p_def padStart_def split: if_splits)
    then have "p = natString i" by (simp add: p_def padStart_def)
    moreover have "0 < i" using l length_natString_one[of i] by (cases "i = 0") simp_all
    ultimately show ?thesis using hd_natString by simp
  qed
  show ?thesis unfolding zeroPadded_def f st using lp dp vp hp by simp
qed

text \<open>A run in which no awaited call rejects and the snapshot parses resolves.\<close>

lemma await_calm:
  "hoare (\<lambda>w. failAfter w = None \<and> I (trace w)) (await e evs ans) (\<lambda>w. False)
     (\<lambda>a w. failAfter w = None)"
  by (auto simp: hoare_def await_def)

lemma calm_await:
  "hoare (\<lambda>w. failAfter w = None) (await e evs ans) (\<lambda>w. False) (\<lambda>a w. failAfter w = None)"
  by (auto simp: hoare_def await_def)

lemma calm_resolve:
  "hoare (\<lambda>w. failAfter w = None) (resolve a) (\<lambda>w. False) (\<lambda>a w. failAfter w = None)"
  by (rule hoare_resolve)

lemma calm_applyOne:
  "hoare (\<lambda>w. failAfter w = None) (applyOne R q) (\<lambda>w. False) (\<lambda>a w. failAfter w = None)"
  by (auto simp: hoare_def applyOne_def applyIntervention_def andThen_def await_def
        setSimulationTime_def Let_def split: InterventionType.splits)

lemma calm_applyScheduled:
  "hoare (\<lambda>w. failAfter w = None) (applyScheduled R ivs fr i) (\<lambda>w. False) (\<lambda>a w. failAfter w = None)"
proof (induction d \<equiv> "length ivs - i" arbitrary: i)
  case 0
  then show ?case by (auto simp: hoare_def applyScheduled_unfold)
next
  case (Suc d)
  have IH: "hoare (\<lambda>w. failAfter w = None) (applyScheduled R ivs fr (Suc i)) (\<lambda>w. False)
              (\<lambda>a w. failAfter w = None)"
    by (rule Suc(1)) (use Suc(2) in simp)
  show ?case
  proof (rule hoareI)
    fix w r w' assume c: "failAfter w = None" and e: "applyScheduled R ivs fr i w = (r, w')"
    show "case r of Inl e \<Rightarrow> False | Inr a \<Rightarrow> failAfter w' = None"
    proof (cases "i < length ivs \<and> frame (heap w (ivs ! i)) = fr")
      case False
      with e c show ?thesis by (auto simp: applyScheduled_unfold)
    next
      case True
      obtain r1 w1 where one: "applyOne R (ivs ! i) w = (r1, w1)" by (cases "applyOne R (ivs ! i) w")
      from hoareD[OF calm_applyOne c one] obtain u where u: "r1 = Inr u" "failAfter w1 = None"
        by (cases r1) simp_all
      with e one True have "applyScheduled R ivs fr (Suc i) w1 = (r, w')"
        by (simp add: applyScheduled_unfold)
      then show ?thesis by (rule hoareD[OF IH u(2)])
    qed
  qed
qed

lemma calm_captureStep:
  "hoare (\<lambda>w. failAfter w = None) (captureStep R P cfg dir ivs fr) (\<lambda>w. False)
     (\<lambda>a w. failAfter w = None)"
  unfolding captureStep_def saveFrame_def Let_def
  apply (rule hoare_andThen[OF calm_await])
  apply (rule hoare_andThen[OF calm_await])
  apply (rule hoare_andThen[OF calm_await])
  apply (rule hoare_andThen[OF calm_await])
  apply (rule hoareI)
  apply (auto simp: resolve_def)
  done

lemma calm_frameLoop:
  "hoare (\<lambda>w. failAfter w = None) (frameLoop R P cfg dir ivs fr i anns) (\<lambda>w. False)
     (\<lambda>a w. failAfter w = None)"
proof (induction d \<equiv> "nat (totalFrames cfg - fr)" arbitrary: fr i anns)
  case 0
  then show ?case by (auto simp: hoare_def frameLoop_unfold)
next
  case (Suc d)
  then have lt: "fr < totalFrames cfg" by simp
  have IH: "hoare (\<lambda>w. failAfter w = None) (frameLoop R P cfg dir ivs (fr + 1) i' anns') (\<lambda>w. False)
              (\<lambda>a w. failAfter w = None)" for i' anns'
    by (rule Suc(1)) (use Suc(2) in simp)
  have body: "hoare (\<lambda>w. failAfter w = None)
             (andThen (applyScheduled R ivs fr i) (\<lambda>i.
                andThen (captureStep R P cfg dir ivs fr) (\<lambda>a. resolve (i, a))))
             (\<lambda>w. False) (\<lambda>p w. failAfter w = None)"
    apply (rule hoare_andThen[OF calm_applyScheduled])
    apply (rule hoare_andThen[OF calm_captureStep])
    apply (rule hoare_resolve)
    apply assumption
    done
  show ?case
  proof (rule hoareI)
    fix w r w' assume c: "failAfter w = None"
      and e: "frameLoop R P cfg dir ivs fr i anns w = (r, w')"
    obtain r1 w1 where one: "andThen (applyScheduled R ivs fr i) (\<lambda>i.
                andThen (captureStep R P cfg dir ivs fr) (\<lambda>a. resolve (i, a))) w = (r1, w1)"
      by (cases "andThen (applyScheduled R ivs fr i) (\<lambda>i.
                andThen (captureStep R P cfg dir ivs fr) (\<lambda>a. resolve (i, a))) w")
    from hoareD[OF body c one] obtain p where p: "r1 = Inr p" "failAfter w1 = None"
      by (cases r1) simp_all
    obtain i' a where ia: "p = (i', a)" by (cases p)
    from e one lt p ia have "frameLoop R P cfg dir ivs (fr + 1) i' (anns @ [a]) w1 = (r, w')"
      by (simp add: frameLoop_unfold)
    then show "case r of Inl e \<Rightarrow> False | Inr a \<Rightarrow> failAfter w' = None"
      by (rule hoareD[OF IH p(2)])
  qed
qed

lemma calm_collectMetadata:
  assumes "\<forall>tr. \<not> kineticParamsThrow (getOptions R tr)"
  shows "hoare (\<lambda>w. failAfter w = None) (collectMetadata R cfg anns) (\<lambda>w. False)
           (\<lambda>a w. failAfter w = None)"
  using assms
  by (auto simp: hoare_def collectMetadata_def andThen_def await_def resolve_def)

lemma calm_run:
  assumes "\<forall>tr. \<not> kineticParamsThrow (getOptions R tr)"
  shows "hoare (\<lambda>w. failAfter w = None) (run R P html cfg) (\<lambda>w. False) (\<lambda>a w. failAfter w = None)"
proof -
  have seed: "hoare (\<lambda>w. failAfter w = None)
                (case randomSeed cfg of None \<Rightarrow> resolve ()
                 | Some seed \<Rightarrow> await RemoteCallFailure [SetSeed seed] (\<lambda>_. ()))
                (\<lambda>w. False) (\<lambda>a w. failAfter w = None)"
    by (cases "randomSeed cfg") (simp_all add: calm_await calm_resolve)
  have opts: "hoare (\<lambda>w. failAfter w = None)
                (case options cfg of None \<Rightarrow> resolve ()
                 | Some opts \<Rightarrow>
                      if length opts > 0
                      then await RemoteCallFailure
                             (map (\<lambda>(key, v). SetOption key v) opts @ [UpdateProblem]) (\<lambda>_. ())
                      else resolve ())
                (\<lambda>w. False) (\<lambda>a w. failAfter w = None)"
    by (cases "options cfg") (simp_all add: calm_await calm_resolve)
  have loop: "hoare (\<lambda>w. failAfter w = None)
                (\<lambda>w. frameLoop R P cfg dir (sortedInterventions (heap w) cfg) 0 0 [] w)
                (\<lambda>w. False) (\<lambda>a w. failAfter w = None)" for dir
    using calm_frameLoop unfolding hoare_def by blast
  have wr: "hoare (\<lambda>w. failAfter w = None)
                (\<lambda>w. await ArtifactWriteFailure
                         [WriteFile path (MetadataJson (stringify (heap w) metadata))] (\<lambda>_. ()) w)
                (\<lambda>w. False) (\<lambda>a w. failAfter w = None)" for path metadata
    by (auto simp: hoare_def await_def)
  show ?thesis
    unfolding run_def Let_def
    apply (rule hoare_andThen[OF calm_await])
    apply (rule hoare_andThen[OF calm_await])
    apply (rule hoare_andThen[OF calm_await])
    apply (rule hoare_andThen[OF seed])
    apply (rule hoare_andThen[OF opts])
    apply (rule hoare_andThen[OF calm_await])
    apply (rule hoare_andThen[OF loop])
    apply (rule hoare_andThen[OF calm_collectMetadata[OF assms]])
    apply (rule hoare_andThen[OF wr])
    apply (rule calm_resolve)
    done
qed

lemma run_resolves:
  assumes "\<forall>tr. \<not> kineticParamsThrow (getOptions R tr)"
  shows "resolved (fst (run R P html cfg (newWorld h None)))"
proof -
  obtain r w' where e: "run R P html cfg (newWorld h None) = (r, w')"
    by (cases "run R P html cfg (newWorld h None)")
  have "failAfter (newWorld h None) = None" by (simp add: newWorld_def)
  from hoareD[OF calm_run[OF assms] this e] show ?thesis
    using e by (cases r) (simp_all add: resolved_def)
qed

lemma run_frames:
  assumes "run R P html cfg (newWorld h k) = (Inr m, w')"
  shows "frameWrites (trace w') =
           map (\<lambda>i. join P (join P (outputDir cfg) ''frames'') (frameFilename (int i)))
               [0..<nat (totalFrames cfg)]"
proof -
  from run_Inr_shape[OF assms] obtain pre w6 anns w7 post where
    a: "trace w6 = trace (newWorld h k) @ pre" "\<forall>e \<in> set pre. isQuiet e"
       "frameLoop R P cfg (join P (outputDir cfg) ''frames'')
          (sortedInterventions (heap (newWorld h k)) cfg) 0 0 [] w6 = (Inr anns, w7)"
       "trace w' = trace w7 @ post" "\<forall>e \<in> set post. isQuiet e"
    by blast
  have f6: "frameWrites (trace w6) = []"
    using a(1) quiet_frameWrites[OF a(2)] by (simp add: newWorld_def)
  have "frameWrites (trace w7) =
           map (\<lambda>i. join P (join P (outputDir cfg) ''frames'') (frameFilename (int i)))
               [0..<nat (totalFrames cfg)]"
    using frameLoop_frames[OF a(3)] f6 by simp
  then show ?thesis
    using a(4) quiet_frameWrites[OF a(5)] by (simp add: frameWrites_append)
qed

text \<open>
  C2, as amended. A run that resolves has written, into the \<open>frames\<close> directory of the
  job, exactly the image files of the frames \<open>0 .. totalFrames - 1\<close>, in ascending
  order, one write each. The names are pairwise different. The name of frame \<open>i\<close> is
  the decimal index, padded with zeros on the left to six digits, followed by \<open>.png\<close>;
  it has exactly six digits for an index below 1000000, and is the unpadded index
  from 1000000 on.
\<close>

theorem frames_written:
  assumes "run R P html cfg (newWorld h k) = (Inr m, w')"
  shows "frameWrites (trace w') =
           map (\<lambda>i. join P (join P (outputDir cfg) ''frames'') (frameFilename (int i)))
               [0..<nat (totalFrames cfg)] \<and>
         distinct (map (\<lambda>i. frameFilename (int i)) [0..<nat (totalFrames cfg)]) \<and>
         (\<forall>i < nat (totalFrames cfg).
            zeroPadded i (frameFilename (int i)) \<and>
            (i < 1000000 \<longrightarrow> sixDigits i (frameFilename (int i))))"
  using run_frames[OF assms] distinct_frameFilenames zeroPadded_frameFilename sixDigits_frameFilename
  by blast

lemma sample_parses: "\<forall>tr. \<not> kineticParamsThrow (getOptions sampleRenderer tr)"
  by (simp add: sampleRenderer_def kineticParamsThrow_def)

theorem frames_written_witness:
  "resolved (fst (run sampleRenderer samplePaths ''index.html'' sampleConfig (newWorld sampleStore None))) \<and>
   frameWrites (trace (snd (run sampleRenderer samplePaths ''index.html'' sampleConfig
                              (newWorld sampleStore None))))
     = [''out/GrayScott/job-1/frames/000000.png'', ''out/GrayScott/job-1/frames/000001.png''] \<and>
   zeroPadded 1 (frameFilename 1) \<and> sixDigits 1 (frameFilename 1)"
proof -
  define rn where "rn = run sampleRenderer samplePaths ''index.html'' sampleConfig (newWorld sampleStore None)"
  have r: "resolved (fst rn)" unfolding rn_def by (rule run_resolves[OF sample_parses])
  then obtain m where m: "fst rn = Inr m" by (cases "fst rn") (simp_all add: resolved_def)
  have h: "run sampleRenderer samplePaths ''index.html'' sampleConfig (newWorld sampleStore None)
             = (Inr m, snd rn)" using m by (simp add: rn_def prod_eq_iff)
  have n: "nat (totalFrames sampleConfig) = 2" by (simp add: sampleConfig_def)
  have e: "map (\<lambda>i. join samplePaths (join samplePaths (outputDir sampleConfig) ''frames'') (frameFilename (int i)))
               [0..<2] = [''out/GrayScott/job-1/frames/000000.png'', ''out/GrayScott/job-1/frames/000001.png'']"
    by code_simp
  from frames_written[OF h, unfolded n e]
  have A: "frameWrites (trace (snd rn))
     = [''out/GrayScott/job-1/frames/000000.png'', ''out/GrayScott/job-1/frames/000001.png'']"
    and B: "\<forall>i < 2. zeroPadded i (frameFilename (int i)) \<and>
            (i < 1000000 \<longrightarrow> sixDigits i (frameFilename (int i)))" by blast+
  from B have "(1::nat) < 2 \<longrightarrow> zeroPadded 1 (frameFilename (int 1)) \<and>
            ((1::nat) < 1000000 \<longrightarrow> sixDigits 1 (frameFilename (int 1)))" by blast
  then have "zeroPadded 1 (frameFilename 1) \<and> sixDigits 1 (frameFilename 1)" by simp
  with r A show ?thesis unfolding rn_def by simp
qed

text \<open>
  C2 as stated fails: a job of 1000001 frames runs to the end, and its last frame is
  written to \<open>1000000.png\<close>, a name of seven digits.
\<close>

lemma char_of_digits: "char_of (48::nat) = CHR ''0''" "char_of (49::nat) = CHR ''1''"
  by code_simp+

lemma natString_million: "natString 1000000 = ''1000000''"
  by (simp add: natString.simps digitChar_def char_of_digits)

lemma frameFilename_million: "frameFilename 1000000 = ''1000000.png''"
  using frameFilename_nat[of 1000000] natString_million by (simp add: padStart_def)

theorem seven_digit_frame_counterexample:
  "resolved (fst (run sampleRenderer samplePaths ''index.html'' longConfig (newWorld sampleStore None))) \<and>
   last (frameWrites (trace (snd (run sampleRenderer samplePaths ''index.html'' longConfig
                                    (newWorld sampleStore None)))))
     = ''out/GrayScott/job-1/frames/1000000.png'' \<and>
   \<not> sixDigits 1000000 ''1000000.png''"
proof -
  define rn where "rn = run sampleRenderer samplePaths ''index.html'' longConfig (newWorld sampleStore None)"
  have r: "resolved (fst rn)" unfolding rn_def by (rule run_resolves[OF sample_parses])
  then obtain m where m: "fst rn = Inr m" by (cases "fst rn") (simp_all add: resolved_def)
  have h: "run sampleRenderer samplePaths ''index.html'' longConfig (newWorld sampleStore None)
             = (Inr m, snd rn)" using m by (simp add: rn_def prod_eq_iff)
  define N :: nat where "N = 1000000"
  have "nat (totalFrames longConfig) = Suc N" by (simp add: longConfig_def N_def)
  then have n: "[0..<nat (totalFrames longConfig)] = [0..<N] @ [N]" by (simp only: upt_Suc_append le0)
  have "last (frameWrites (trace (snd rn))) =
          join samplePaths (join samplePaths (outputDir longConfig) ''frames'') (frameFilename (int N))"
    unfolding run_frames[OF h] n by (simp only: map_append list.map last_snoc)
  also have "\<dots> = ''out/GrayScott/job-1/frames/1000000.png''"
  proof -
    have "frameFilename (int N) = ''1000000.png''" using frameFilename_million by (simp add: N_def)
    then show ?thesis by (simp add: samplePaths_def longConfig_def sampleConfig_def)
  qed
  finally have l: "last (frameWrites (trace (snd rn))) = ''out/GrayScott/job-1/frames/1000000.png''" .
  have s: "\<not> sixDigits 1000000 ''1000000.png''" by (simp add: sixDigits_def)
  from r l s show ?thesis unfolding rn_def by blast
qed

section \<open>Properties of the session runner: the interventions applied\<close>

lemma appliedAtFrame_mono:
  assumes "appliedAtFrame R h q w" "trace w' = trace w @ new" "heap w' q = heap w q"
  shows "appliedAtFrame R h q w'"
proof -
  from assms(1) obtain pre post where
    "trace w = pre @ brushEvent h q # GetTime # post" "stepsIn pre = nat (frame (h q))"
    "length (frameWrites pre) = nat (frame (h q))"
    "simulationTime (heap w q) = Some (getTime R (pre @ [brushEvent h q]))"
    unfolding appliedAtFrame_def by blast
  then have "trace w' = pre @ brushEvent h q # GetTime # (post @ new)"
    "stepsIn pre = nat (frame (h q))" "length (frameWrites pre) = nat (frame (h q))"
    "simulationTime (heap w' q) = Some (getTime R (pre @ [brushEvent h q]))"
    using assms(2,3) by simp_all
  then show ?thesis unfolding appliedAtFrame_def by blast
qed



lemma orderly_quiet:
  assumes "orderly R h ivs w" "\<forall>e \<in> set evs. isQuiet e"
  shows "orderly R h ivs (w\<lparr>trace := trace w @ evs, failAfter := k\<rparr>)"
proof -
  define w' where "w' = w\<lparr>trace := trace w @ evs, failAfter := k\<rparr>"
  have t: "trace w' = trace w @ evs" and hp: "heap w' = heap w" by (simp_all add: w'_def)
  have ar: "appliedRefs (trace w') = appliedRefs (trace w)"
    by (simp add: t appliedRefs_append quiet_appliedRefs[OF assms(2)])
  have st: "stepsIn (trace w') = stepsIn (trace w)"
    by (simp add: t stepsIn_append quiet_stepsIn[OF assms(2)])
  have m: "\<And>q. appliedAtFrame R h q w \<Longrightarrow> appliedAtFrame R h q w'"
    by (rule appliedAtFrame_mono[OF _ t]) (simp_all add: hp)
  show ?thesis
    using assms(1) m unfolding orderly_def w'_def[symmetric] ar st hp by blast
qed








lemma hoare_step:
  assumes "\<And>w. P w \<Longrightarrow> E w"
    and "appliedRefs evs = []"
    and "\<And>w k. P w \<Longrightarrow> S (ans (trace w)) (w\<lparr>trace := trace w @ evs, failAfter := k\<rparr>)"
  shows "hoare P (await e evs ans) E S"
  by (rule hoare_await) (use assms in auto)












end
